theory Spec2Isabelle
  imports Main
begin

section \<open>Data model\<close>

text \<open>
  A slot of the grid (class \<open>Variable\<close> of the puzzle description): row, column,
  direction and length. Two slots are equal iff all four attributes are.
\<close>

datatype direction = ACROSS | DOWN

datatype variable =
  Variable (var_i: nat) (var_j: nat) (var_direction: direction) (var_length: nat)

text \<open>The exceptions the solver's code can raise.\<close>

datatype error = KeyError | TypeError | IndexError | UnboundLocalError

text \<open>
  The puzzle description the solver reads: the slots and the vocabulary (Python sets,
  given here in their iteration order) and the overlap table, a dictionary from ordered
  pairs of slots to either \<open>None\<close> (no constraint) or a pair of character offsets.
\<close>

record crossword =
  variables :: "variable list"
  words :: "string list"
  overlaps :: "(variable \<times> variable) \<rightharpoonup> (nat \<times> nat) option"

text \<open>
  Dictionaries keep insertion order, so they are association lists; a domain is a Python
  set of words, given as the list of its elements in iteration order.
\<close>

type_synonym domains = "(variable \<times> string list) list"
type_synonym assignment = "(variable \<times> string) list"
type_synonym arc = "variable \<times> variable"

definition dict_get :: "('k \<times> 'v) list \<Rightarrow> 'k \<Rightarrow> error + 'v" where
  "dict_get d k = (case map_of d k of None \<Rightarrow> Inl KeyError | Some v \<Rightarrow> Inr v)"

fun dict_set :: "('k \<times> 'v) list \<Rightarrow> 'k \<Rightarrow> 'v \<Rightarrow> ('k \<times> 'v) list" where
  "dict_set [] k v = [(k, v)]"
| "dict_set ((k', v') # d) k v =
     (if k' = k then (k, v) # d else (k', v') # dict_set d k v)"

text \<open>
  Modelled from the spec: the method \<open>neighbors\<close> of the puzzle description, which is
  not part of the solver's file. The neighbors of a slot are the slots that share a
  non-null overlap with it.
\<close>

definition has_overlap :: "crossword \<Rightarrow> variable \<Rightarrow> variable \<Rightarrow> bool" where
  "has_overlap cw v var =
     (case overlaps cw (v, var) of Some (Some p) \<Rightarrow> True | _ \<Rightarrow> False)"

definition neighbors :: "crossword \<Rightarrow> variable \<Rightarrow> variable list" where
  "neighbors cw var = filter (\<lambda>v. v \<noteq> var \<and> has_overlap cw v var) (variables cw)"

text \<open>The constructor: every slot starts with the whole vocabulary.\<close>

definition init_domains :: "crossword \<Rightarrow> domains" where
  "init_domains cw = map (\<lambda>var. (var, words cw)) (variables cw)"

section \<open>Node consistency\<close>

text \<open>
  \<open>self.domains[variable].remove(word)\<close>: the word leaves the set stored under the key.
  At every call the key comes from the dictionary itself.
\<close>

definition domain_remove :: "domains \<Rightarrow> variable \<Rightarrow> string \<Rightarrow> domains" where
  "domain_remove doms var w =
     map (\<lambda>(k, ws). if k = var then (k, removeAll w ws) else (k, ws)) doms"

fun node_words :: "variable \<Rightarrow> string list \<Rightarrow> domains \<Rightarrow> domains" where
  "node_words variable [] doms = doms"
| "node_words variable (word # rest) doms =
     node_words variable rest
       (if length word \<noteq> var_length variable then domain_remove doms variable word
        else doms)"

fun node_variables :: "domains \<Rightarrow> domains \<Rightarrow> domains" where
  "node_variables [] doms = doms"
| "node_variables ((variable, ws) # rest) doms =
     node_variables rest (node_words variable ws doms)"

text \<open>The loops run over a deep copy of the domains and remove from the original.\<close>

definition enforce_node_consistency :: "domains \<Rightarrow> domains" where
  "enforce_node_consistency doms = node_variables doms doms"

section \<open>Arc revision\<close>

text \<open>
  The inner loop of \<open>revise\<close>: the first word of the neighbor's domain that agrees ends
  the loop; indexing a word beyond its end raises.
\<close>

fun words_match :: "string \<Rightarrow> nat \<Rightarrow> nat \<Rightarrow> string list \<Rightarrow> error + bool" where
  "words_match x_word x_overlap y_overlap [] = Inr False"
| "words_match x_word x_overlap y_overlap (y_word # rest) =
     (if x_overlap < length x_word \<and> y_overlap < length y_word
      then (if x_word ! x_overlap = y_word ! y_overlap then Inr True
            else words_match x_word x_overlap y_overlap rest)
      else Inl IndexError)"

fun revise_loop ::
  "domains \<Rightarrow> variable \<Rightarrow> variable \<Rightarrow> nat \<Rightarrow> nat \<Rightarrow> string list \<Rightarrow> domains \<times> bool
     \<Rightarrow> error + domains \<times> bool" where
  "revise_loop snapshot x y x_overlap y_overlap [] (doms, revised) = Inr (doms, revised)"
| "revise_loop snapshot x y x_overlap y_overlap (x_word # rest) (doms, revised) =
     (case dict_get snapshot y of
        Inl e \<Rightarrow> Inl e
      | Inr y_words \<Rightarrow>
          (case words_match x_word x_overlap y_overlap y_words of
             Inl e \<Rightarrow> Inl e
           | Inr True \<Rightarrow> revise_loop snapshot x y x_overlap y_overlap rest (doms, revised)
           | Inr False \<Rightarrow>
               revise_loop snapshot x y x_overlap y_overlap rest
                 (domain_remove doms x x_word, True)))"

text \<open>
  \<open>revise\<close> first unpacks the entry of the overlap table: a missing key raises
  \<open>KeyError\<close> and the entry \<open>None\<close> cannot be unpacked. It returns the new domains
  together with the flag.
\<close>

definition revise ::
  "crossword \<Rightarrow> domains \<Rightarrow> variable \<Rightarrow> variable \<Rightarrow> error + domains \<times> bool" where
  "revise cw doms x y =
     (case overlaps cw (x, y) of
        None \<Rightarrow> Inl KeyError
      | Some None \<Rightarrow> Inl TypeError
      | Some (Some (x_overlap, y_overlap)) \<Rightarrow>
          (case dict_get doms x of
             Inl e \<Rightarrow> Inl e
           | Inr x_words \<Rightarrow>
               revise_loop doms x y x_overlap y_overlap x_words (doms, False)))"

section \<open>AC-3\<close>

fun initial_arcs_of :: "crossword \<Rightarrow> variable \<Rightarrow> variable list \<Rightarrow> arc list \<Rightarrow> error + arc list" where
  "initial_arcs_of cw variable [] queue = Inr queue"
| "initial_arcs_of cw variable (overlap_variable # rest) queue =
     (case overlaps cw (variable, overlap_variable) of
        None \<Rightarrow> Inl KeyError
      | Some None \<Rightarrow> initial_arcs_of cw variable rest queue
      | Some (Some p) \<Rightarrow>
          initial_arcs_of cw variable rest (queue @ [(variable, overlap_variable)]))"

fun initial_arcs :: "crossword \<Rightarrow> variable list \<Rightarrow> arc list \<Rightarrow> error + arc list" where
  "initial_arcs cw [] queue = Inr queue"
| "initial_arcs cw (variable # rest) queue =
     (case initial_arcs_of cw variable (neighbors cw variable) queue of
        Inl e \<Rightarrow> Inl e
      | Inr queue' \<Rightarrow> initial_arcs cw rest queue')"

definition dom_size :: "domains \<Rightarrow> nat" where
  "dom_size doms = sum_list (map (\<lambda>(k, ws). length ws) doms)"

lemma dom_size_Cons: "dom_size ((k, ws) # doms) = length ws + dom_size doms"
  by (simp add: dom_size_def)

lemma domain_remove_Cons:
  "domain_remove ((k, ws) # doms) x w =
     (if k = x then (k, removeAll w ws) else (k, ws)) # domain_remove doms x w"
  by (simp add: domain_remove_def)

lemma dom_size_domain_remove_le: "dom_size (domain_remove doms x w) \<le> dom_size doms"
proof (induction doms)
  case Nil
  show ?case by (simp add: domain_remove_def)
next
  case (Cons p doms)
  obtain k ws where p: "p = (k, ws)" by (cases p)
  have "length (removeAll w ws) \<le> length ws"
    by (rule length_removeAll_less_eq)
  with Cons show ?case
    unfolding p domain_remove_Cons by (simp add: dom_size_Cons add_mono del: length_removeAll_less_eq)
qed

lemma dom_size_domain_remove_less:
  assumes "map_of doms x = Some ws" and "w \<in> set ws"
  shows "dom_size (domain_remove doms x w) < dom_size doms"
  using assms
proof (induction doms)
  case Nil
  then show ?case by simp
next
  case (Cons p doms)
  obtain k vs where p: "p = (k, vs)" by (cases p)
  show ?case
  proof (cases "k = x")
    case True
    with Cons.prems p have "vs = ws" by simp
    with \<open>w \<in> set ws\<close> have "length (removeAll w vs) < length vs"
      by (simp add: removeAll_filter_not_eq length_filter_less)
    moreover have "dom_size (domain_remove doms x w) \<le> dom_size doms"
      by (rule dom_size_domain_remove_le)
    ultimately show ?thesis
      unfolding p domain_remove_Cons using True by (simp add: dom_size_Cons)
  next
    case False
    with Cons.prems p have "map_of doms x = Some ws" by simp
    with Cons.IH Cons.prems(2) have "dom_size (domain_remove doms x w) < dom_size doms"
      by simp
    then show ?thesis
      unfolding p domain_remove_Cons using False by (simp add: dom_size_Cons)
  qed
qed

lemma revise_loop_size_le:
  "revise_loop snap x y xo yo xs (doms, r) = Inr (doms', r') \<Longrightarrow> dom_size doms' \<le> dom_size doms"
proof (induction xs arbitrary: doms r)
  case Nil
  then show ?case by simp
next
  case (Cons xw xs)
  from Cons.prems obtain ys where ys: "dict_get snap y = Inr ys"
    by (auto split: sum.splits)
  from Cons.prems ys obtain b where b: "words_match xw xo yo ys = Inr b"
    by (auto split: sum.splits)
  show ?case
  proof (cases b)
    case True
    with Cons.prems ys b have "revise_loop snap x y xo yo xs (doms, r) = Inr (doms', r')"
      by simp
    then show ?thesis by (rule Cons.IH)
  next
    case False
    with Cons.prems ys b
    have "revise_loop snap x y xo yo xs (domain_remove doms x xw, True) = Inr (doms', r')"
      by simp
    then have "dom_size doms' \<le> dom_size (domain_remove doms x xw)" by (rule Cons.IH)
    also have "\<dots> \<le> dom_size doms" by (rule dom_size_domain_remove_le)
    finally show ?thesis .
  qed
qed

lemma revise_loop_unrevised:
  "revise_loop snap x y xo yo xs (doms, False) = Inr (doms', False) \<Longrightarrow> doms' = doms"
proof (induction xs)
  case Nil
  then show ?case by simp
next
  case (Cons xw xs)
  from Cons.prems obtain ys where ys: "dict_get snap y = Inr ys"
    by (auto split: sum.splits)
  from Cons.prems ys obtain b where b: "words_match xw xo yo ys = Inr b"
    by (auto split: sum.splits)
  have flag: "revise_loop snap x y xo yo zs (d, True) = Inr (d', r') \<Longrightarrow> r'" for zs d d' r'
  proof (induction zs arbitrary: d)
    case Nil
    then show ?case by simp
  next
    case (Cons z zs)
    then show ?case by (auto split: sum.splits bool.splits)
  qed
  show ?case
  proof (cases b)
    case True
    with Cons ys b show ?thesis by simp
  next
    case False
    with Cons.prems ys b
    have "revise_loop snap x y xo yo xs (domain_remove doms x xw, True) = Inr (doms', False)"
      by simp
    from flag [OF this] show ?thesis by simp
  qed
qed

lemma revise_loop_size_less:
  assumes "revise_loop snap x y xo yo xs (doms, False) = Inr (doms', True)"
    and "map_of doms x = Some ws" and "set xs \<subseteq> set ws"
  shows "dom_size doms' < dom_size doms"
  using assms
proof (induction xs)
  case Nil
  then show ?case by simp
next
  case (Cons xw xs)
  from Cons.prems(1) obtain ys where ys: "dict_get snap y = Inr ys"
    by (auto split: sum.splits)
  from Cons.prems(1) ys obtain b where b: "words_match xw xo yo ys = Inr b"
    by (auto split: sum.splits)
  show ?case
  proof (cases b)
    case True
    with Cons ys b show ?thesis by simp
  next
    case False
    with Cons.prems(1) ys b
    have "revise_loop snap x y xo yo xs (domain_remove doms x xw, True) = Inr (doms', True)"
      by simp
    then have "dom_size doms' \<le> dom_size (domain_remove doms x xw)"
      by (rule revise_loop_size_le)
    also have "\<dots> < dom_size doms"
      using Cons.prems(2,3) by (intro dom_size_domain_remove_less) auto
    finally show ?thesis .
  qed
qed

lemma revise_size:
  assumes "revise cw doms x y = Inr (doms', revised)"
  shows "if revised then dom_size doms' < dom_size doms else doms' = doms"
proof -
  from assms obtain xo yo where ov: "overlaps cw (x, y) = Some (Some (xo, yo))"
    by (auto simp: revise_def split: option.splits)
  from assms ov obtain xs where xs: "map_of doms x = Some xs"
    by (auto simp: revise_def dict_get_def split: option.splits)
  from assms ov xs have loop: "revise_loop doms x y xo yo xs (doms, False) = Inr (doms', revised)"
    by (simp add: revise_def dict_get_def)
  show ?thesis
  proof (cases revised)
    case True
    with loop xs show ?thesis by (auto intro: revise_loop_size_less)
  next
    case False
    with loop show ?thesis by (auto dest: revise_loop_unrevised)
  qed
qed

text \<open>
  The worklist loop of \<open>ac3\<close>. It ends because a revision that reports a change has removed
  a word, and a revision that reports none leaves a shorter queue.
\<close>

function ac3_loop :: "crossword \<Rightarrow> domains \<Rightarrow> arc list \<Rightarrow> error + domains \<times> bool" where
  "ac3_loop cw doms [] = Inr (doms, True)"
| "ac3_loop cw doms ((x, y) # queue) =
     (case revise cw doms x y of
        Inl e \<Rightarrow> Inl e
      | Inr (doms', revised) \<Rightarrow>
          if revised then
            (case dict_get doms' x of
               Inl e \<Rightarrow> Inl e
             | Inr x_words \<Rightarrow>
                 if length x_words = 0 then Inr (doms', False)
                 else ac3_loop cw doms'
                        (queue @ map (\<lambda>neighbor. (neighbor, x))
                                   (filter (\<lambda>neighbor. neighbor \<noteq> y) (neighbors cw x))))
          else ac3_loop cw doms' queue)"
  by pat_completeness auto
termination
proof (relation "measures [\<lambda>(cw, doms, queue). dom_size doms, \<lambda>(cw, doms, queue). length queue]")
  show "wf (measures [\<lambda>(cw, doms, queue). dom_size doms, \<lambda>(cw, doms, queue). length queue])"
    by simp
next
  fix cw :: crossword and doms x y queue r doms' revised
  assume "revise cw doms x y = Inr r" "(doms', revised) = r" "revised"
  then have "dom_size doms' < dom_size doms"
    using revise_size [of cw doms x y doms' revised] by simp
  then show "((cw, doms', queue @ map (\<lambda>neighbor. (neighbor, x))
                 (filter (\<lambda>neighbor. neighbor \<noteq> y) (neighbors cw x))), cw, doms, (x, y) # queue)
             \<in> measures [\<lambda>(cw, doms, queue). dom_size doms, \<lambda>(cw, doms, queue). length queue]"
    by simp
next
  fix cw :: crossword and doms x y queue r doms' revised
  assume "revise cw doms x y = Inr r" "(doms', revised) = r" "\<not> revised"
  then have "doms' = doms"
    using revise_size [of cw doms x y doms' revised] by simp
  then show "((cw, doms', queue), cw, doms, (x, y) # queue)
             \<in> measures [\<lambda>(cw, doms, queue). dom_size doms, \<lambda>(cw, doms, queue). length queue]"
    by simp
qed

text \<open>
  \<open>ac3\<close>: the queue is only created when \<open>arcs\<close> is \<open>None\<close> or empty; with any other
  argument the loop reads a variable that was never bound.
\<close>

definition ac3 :: "crossword \<Rightarrow> domains \<Rightarrow> arc list option \<Rightarrow> error + domains \<times> bool" where
  "ac3 cw doms arcs =
     (if arcs = None \<or> arcs = Some [] then
        (case initial_arcs cw (map fst doms) [] of
           Inl e \<Rightarrow> Inl e
         | Inr queue \<Rightarrow> ac3_loop cw doms queue)
      else Inl UnboundLocalError)"

section \<open>Search\<close>

definition assignment_complete :: "domains \<Rightarrow> assignment \<Rightarrow> bool" where
  "assignment_complete doms a = list_all (\<lambda>variable. map_of a variable \<noteq> None) (map fst doms)"

text \<open>
  \<open>consistent\<close>: distinct words, then the lengths, then the overlaps of every assigned
  slot with each of its assigned neighbors.
\<close>

fun check_neighbors ::
  "crossword \<Rightarrow> assignment \<Rightarrow> variable \<Rightarrow> string \<Rightarrow> variable list \<Rightarrow> error + bool" where
  "check_neighbors cw a variable word [] = Inr True"
| "check_neighbors cw a variable word (neighbor # rest) =
     (case map_of a neighbor of
        None \<Rightarrow> check_neighbors cw a variable word rest
      | Some neighbor_word \<Rightarrow>
          (case overlaps cw (variable, neighbor) of
             None \<Rightarrow> Inl KeyError
           | Some None \<Rightarrow> Inl TypeError
           | Some (Some (x, y)) \<Rightarrow>
               if x < length word \<and> y < length neighbor_word
               then (if word ! x \<noteq> neighbor_word ! y then Inr False
                     else check_neighbors cw a variable word rest)
               else Inl IndexError))"

fun check_overlaps :: "crossword \<Rightarrow> assignment \<Rightarrow> assignment \<Rightarrow> error + bool" where
  "check_overlaps cw a [] = Inr True"
| "check_overlaps cw a ((variable, word) # rest) =
     (case check_neighbors cw a variable word (neighbors cw variable) of
        Inl e \<Rightarrow> Inl e
      | Inr False \<Rightarrow> Inr False
      | Inr True \<Rightarrow> check_overlaps cw a rest)"

definition consistent :: "crossword \<Rightarrow> assignment \<Rightarrow> error + bool" where
  "consistent cw a =
     (if length (map snd a) \<noteq> length (remdups (map snd a)) then Inr False
      else if \<not> list_all (\<lambda>(variable, word). var_length variable = length word) a
      then Inr False
      else check_overlaps cw a a)"

text \<open>
  \<open>order_domain_values\<close>: for each word of the slot's domain, the number of words of the
  unassigned neighbors' domains that differ from it at the overlap; the words are then
  sorted by that number (Python's sort is stable, as \<open>sort_key\<close> is).
\<close>

fun count_conflicts :: "string \<Rightarrow> nat \<Rightarrow> nat \<Rightarrow> string list \<Rightarrow> nat \<Rightarrow> error + nat" where
  "count_conflicts word x_overlap y_overlap [] eliminated_words = Inr eliminated_words"
| "count_conflicts word x_overlap y_overlap (neighbor_word # rest) eliminated_words =
     (if x_overlap < length word \<and> y_overlap < length neighbor_word
      then count_conflicts word x_overlap y_overlap rest
             (if word ! x_overlap \<noteq> neighbor_word ! y_overlap then eliminated_words + 1
              else eliminated_words)
      else Inl IndexError)"

fun eliminated_by ::
  "crossword \<Rightarrow> domains \<Rightarrow> assignment \<Rightarrow> variable \<Rightarrow> string \<Rightarrow> variable list \<Rightarrow> nat
     \<Rightarrow> error + nat" where
  "eliminated_by cw doms a var word [] eliminated_words = Inr eliminated_words"
| "eliminated_by cw doms a var word (neighbor # rest) eliminated_words =
     (if map_of a neighbor \<noteq> None then eliminated_by cw doms a var word rest eliminated_words
      else
        (case overlaps cw (var, neighbor) of
           None \<Rightarrow> Inl KeyError
         | Some None \<Rightarrow> Inl TypeError
         | Some (Some (x_overlap, y_overlap)) \<Rightarrow>
             (case dict_get doms neighbor of
                Inl e \<Rightarrow> Inl e
              | Inr neighbor_words \<Rightarrow>
                  (case count_conflicts word x_overlap y_overlap neighbor_words
                          eliminated_words of
                     Inl e \<Rightarrow> Inl e
                   | Inr n \<Rightarrow> eliminated_by cw doms a var word rest n))))"

fun rank_words ::
  "crossword \<Rightarrow> domains \<Rightarrow> assignment \<Rightarrow> variable \<Rightarrow> string list \<Rightarrow> (string \<times> nat) list
     \<Rightarrow> error + (string \<times> nat) list" where
  "rank_words cw doms a var [] ranked = Inr ranked"
| "rank_words cw doms a var (word # rest) ranked =
     (case eliminated_by cw doms a var word (neighbors cw var) 0 of
        Inl e \<Rightarrow> Inl e
      | Inr n \<Rightarrow> rank_words cw doms a var rest (dict_set ranked word n))"

definition order_domain_values ::
  "crossword \<Rightarrow> domains \<Rightarrow> variable \<Rightarrow> assignment \<Rightarrow> error + string list" where
  "order_domain_values cw doms var a =
     (case dict_get doms var of
        Inl e \<Rightarrow> Inl e
      | Inr var_words \<Rightarrow>
          (case rank_words cw doms a var var_words [] of
             Inl e \<Rightarrow> Inl e
           | Inr ranked \<Rightarrow> Inr (map fst (sort_key snd ranked))))"

text \<open>
  \<open>select_unassigned_variable\<close>: the unassigned slots, sorted by the size of their
  domains; the first is returned, and indexing the empty list raises.
\<close>

definition select_unassigned_variable :: "domains \<Rightarrow> assignment \<Rightarrow> error + variable" where
  "select_unassigned_variable doms a =
     (let choice_dict = filter (\<lambda>(variable, ws). map_of a variable = None) doms;
          sorted_list = map fst (sort_key (\<lambda>item. length (snd item)) choice_dict)
      in case sorted_list of [] \<Rightarrow> Inl IndexError | variable # rest \<Rightarrow> Inr variable)"

text \<open>
  The loop over the candidate values of \<open>backtrack\<close>: the first value whose branch returns
  an assignment ends it, and an exception leaves it.
\<close>

fun for_values :: "('v \<Rightarrow> error + 'r option) \<Rightarrow> 'v list \<Rightarrow> error + 'r option" where
  "for_values body [] = Inr None"
| "for_values body (v # vs) =
     (case body v of
        Inl e \<Rightarrow> Inl e
      | Inr (Some r) \<Rightarrow> Inr (Some r)
      | Inr None \<Rightarrow> for_values body vs)"

lemma for_values_cong [fundef_cong]:
  "vs = vs' \<Longrightarrow> (\<And>v. v \<in> set vs' \<Longrightarrow> body v = body' v) \<Longrightarrow>
   for_values body vs = for_values body' vs'"
proof (induction vs arbitrary: vs')
  case Nil
  then show ?case by simp
next
  case (Cons v vs)
  then show ?case by (auto split: sum.splits option.splits)
qed

definition unassigned :: "domains \<Rightarrow> assignment \<Rightarrow> variable list" where
  "unassigned doms a = filter (\<lambda>variable. map_of a variable = None) (map fst doms)"

lemma map_of_dict_set: "map_of (dict_set d k v) = (map_of d)(k \<mapsto> v)"
  by (induction d) (auto simp: fun_eq_iff)

lemma select_unassigned_variable_in:
  assumes "select_unassigned_variable doms a = Inr v"
  shows "v \<in> set (unassigned doms a)"
proof -
  let ?c = "filter (\<lambda>(variable, ws). map_of a variable = None) doms"
  from assms obtain rest where "map fst (sort_key (\<lambda>item. length (snd item)) ?c) = v # rest"
    by (auto simp: select_unassigned_variable_def Let_def split: list.splits)
  then have "v \<in> set (map fst (sort_key (\<lambda>item. length (snd item)) ?c))"
    by simp
  then show ?thesis by (auto simp: unassigned_def)
qed

lemma unassigned_dict_set:
  "unassigned doms (dict_set a v w) = filter (\<lambda>u. u \<noteq> v) (unassigned doms a)"
  by (auto simp: unassigned_def map_of_dict_set intro: filter_cong)

lemma unassigned_shrinks:
  assumes "v \<in> set (unassigned doms a)"
  shows "length (unassigned doms (dict_set a v w)) < length (unassigned doms a)"
  unfolding unassigned_dict_set using assms by (simp add: length_filter_less)

function backtrack :: "crossword \<Rightarrow> domains \<Rightarrow> assignment \<Rightarrow> error + assignment option" where
  "backtrack cw doms a =
     (if length a = length doms then Inr (Some a)
      else
        (case select_unassigned_variable doms a of
           Inl e \<Rightarrow> Inl e
         | Inr variable \<Rightarrow>
             (case dict_get doms variable of
                Inl e \<Rightarrow> Inl e
              | Inr var_words \<Rightarrow>
                  for_values
                    (\<lambda>value.
                       (case consistent cw (dict_set a variable value) of
                          Inl e \<Rightarrow> Inl e
                        | Inr False \<Rightarrow> Inr None
                        | Inr True \<Rightarrow> backtrack cw doms (dict_set a variable value)))
                    var_words)))"
  by pat_completeness auto
termination
proof (relation "measure (\<lambda>(cw, doms, a). length (unassigned doms a))")
  show "wf (measure (\<lambda>(cw, doms, a). length (unassigned doms a)))" by simp
next
  fix cw :: crossword and doms a variable and "value" :: string
  assume "select_unassigned_variable doms a = Inr variable"
  then have "variable \<in> set (unassigned doms a)" by (rule select_unassigned_variable_in)
  then show "((cw, doms, dict_set a variable value), cw, doms, a)
             \<in> measure (\<lambda>(cw, doms, a). length (unassigned doms a))"
    by (simp add: unassigned_shrinks)
qed

declare backtrack.simps [simp del]

text \<open>\<open>solve\<close> ignores what \<open>ac3\<close> returns and searches from the empty assignment.\<close>

definition solve :: "crossword \<Rightarrow> error + assignment option" where
  "solve cw =
     (let doms = enforce_node_consistency (init_domains cw)
      in case ac3 cw doms None of
           Inl e \<Rightarrow> Inl e
         | Inr (doms', satisfiable) \<Rightarrow> backtrack cw doms' [])"

section \<open>The properties, as predicates\<close>

text \<open>The domain stored for a slot (no words when the slot is not a key).\<close>

definition domain_of :: "domains \<Rightarrow> variable \<Rightarrow> string list" where
  "domain_of doms v = (case map_of doms v of None \<Rightarrow> [] | Some ws \<Rightarrow> ws)"

text \<open>
  Word \<open>w\<close> in slot \<open>x\<close> and word \<open>w2\<close> in slot \<open>y\<close> carry the same character at the
  offsets the overlap table gives for \<open>(x, y)\<close>.
\<close>

definition overlap_agrees :: "crossword \<Rightarrow> variable \<Rightarrow> string \<Rightarrow> variable \<Rightarrow> string \<Rightarrow> bool" where
  "overlap_agrees cw x w y w2 =
     (case overlaps cw (x, y) of
        Some (Some (x_overlap, y_overlap)) \<Rightarrow>
          x_overlap < length w \<and> y_overlap < length w2 \<and> w ! x_overlap = w2 ! y_overlap
      | _ \<Rightarrow> False)"

text \<open>
  The three conditions of the consistency check, as the specification words them:
  distinct words, words as long as their slots, agreement of assigned neighbors.
\<close>

definition consistent_spec :: "crossword \<Rightarrow> assignment \<Rightarrow> bool" where
  "consistent_spec cw a \<longleftrightarrow>
     distinct (map snd a) \<and>
     (\<forall>(v, w) \<in> set a. length w = var_length v) \<and>
     (\<forall>(v, w) \<in> set a. \<forall>(n, nw) \<in> set a.
        n \<in> set (neighbors cw v) \<longrightarrow> overlap_agrees cw v w n nw)"

text \<open>A complete assignment of vocabulary words to the slots that passes the check.\<close>

definition solution :: "crossword \<Rightarrow> assignment \<Rightarrow> bool" where
  "solution cw s \<longleftrightarrow>
     distinct (map fst s) \<and> set (map fst s) = set (variables cw) \<and>
     set (map snd s) \<subseteq> set (words cw) \<and> consistent cw s = Inr True"

text \<open>Every word of every domain has a support in the domain of each neighbor.\<close>

definition arc_consistent :: "crossword \<Rightarrow> domains \<Rightarrow> bool" where
  "arc_consistent cw doms \<longleftrightarrow>
     (\<forall>x \<in> set (variables cw). \<forall>y \<in> set (neighbors cw x).
        \<forall>w \<in> set (domain_of doms x). \<exists>w2 \<in> set (domain_of doms y). overlap_agrees cw x w y w2)"

text \<open>
  A well-formed puzzle description: the slots are a set, the overlap table has an entry
  for every ordered pair of distinct slots, and the entries of a pair and of its reverse
  mirror each other.
\<close>

definition wf_crossword :: "crossword \<Rightarrow> bool" where
  "wf_crossword cw \<longleftrightarrow>
     distinct (variables cw) \<and>
     (\<forall>x \<in> set (variables cw). \<forall>y \<in> set (variables cw). x \<noteq> y \<longrightarrow>
        (case overlaps cw (x, y) of
           None \<Rightarrow> False
         | Some None \<Rightarrow> overlaps cw (y, x) = Some None
         | Some (Some (i, j)) \<Rightarrow> overlaps cw (y, x) = Some (Some (j, i))))"

text \<open>A word of slot \<open>x\<close> has a support in the domain of slot \<open>y\<close>.\<close>

definition supported :: "crossword \<Rightarrow> domains \<Rightarrow> variable \<Rightarrow> variable \<Rightarrow> string \<Rightarrow> bool" where
  "supported cw doms x y w \<longleftrightarrow> (\<exists>w2 \<in> set (domain_of doms y). overlap_agrees cw x w y w2)"

text \<open>
  What the search keeps true of its partial assignment: the keys are distinct slots of the
  domain store and the assignment passes the consistency check.
\<close>

definition partial_ok :: "crossword \<Rightarrow> domains \<Rightarrow> assignment \<Rightarrow> bool" where
  "partial_ok cw doms a \<longleftrightarrow>
     distinct (map fst a) \<and> set (map fst a) \<subseteq> set (map fst doms) \<and> consistent cw a = Inr True"

text \<open>The domains still hold, for every slot, the word an assignment gives it.\<close>

definition keeps :: "assignment \<Rightarrow> domains \<Rightarrow> bool" where
  "keeps s doms \<longleftrightarrow> (\<forall>v w. (v, w) \<in> set s \<longrightarrow> w \<in> set (domain_of doms v))"

text \<open>An arc of the worklist: a slot of the puzzle and one of its neighbors.\<close>

definition arc_ok :: "crossword \<Rightarrow> arc \<Rightarrow> bool" where
  "arc_ok cw arc \<longleftrightarrow> fst arc \<in> set (variables cw) \<and> snd arc \<in> set (neighbors cw (fst arc))"

text \<open>Keeping, in every domain, the words that pass a test on slot and word.\<close>

definition prune :: "(variable \<Rightarrow> string \<Rightarrow> bool) \<Rightarrow> domains \<Rightarrow> domains" where
  "prune P doms = map (\<lambda>(k, vs). (k, filter (P k) vs)) doms"

section \<open>Fixtures\<close>

text \<open>
  Two crossing slots: the first cell of the across slot is the second cell of the down
  slot.
\<close>

definition across :: variable where
  "across = Variable 1 0 ACROSS 3"

definition down :: variable where
  "down = Variable 0 0 DOWN 4"

definition crossing :: "string list \<Rightarrow> crossword" where
  "crossing vocabulary =
     \<lparr>variables = [across, down], words = vocabulary,
      overlaps = [(across, down) \<mapsto> Some (0, 1), (down, across) \<mapsto> Some (1, 0)]\<rparr>"

text \<open>A third slot that crosses the down slot only, and a fourth one that crosses nothing.\<close>

definition below :: variable where
  "below = Variable 3 0 ACROSS 3"

definition apart :: variable where
  "apart = Variable 0 5 DOWN 4"

definition ladder :: "string list \<Rightarrow> crossword" where
  "ladder vocabulary =
     \<lparr>variables = [across, down, below, apart], words = vocabulary,
      overlaps =
        [(across, down) \<mapsto> Some (0, 1), (down, across) \<mapsto> Some (1, 0),
         (below, down) \<mapsto> Some (0, 3), (down, below) \<mapsto> Some (3, 0),
         (across, below) \<mapsto> None, (below, across) \<mapsto> None,
         (across, apart) \<mapsto> None, (apart, across) \<mapsto> None,
         (down, apart) \<mapsto> None, (apart, down) \<mapsto> None,
         (below, apart) \<mapsto> None, (apart, below) \<mapsto> None]\<rparr>"

text \<open>
  A vocabulary for the four slots with which all domains keep two words, and the domains
  that propagation leaves.
\<close>

definition tie_vocabulary :: "string list" where
  "tie_vocabulary = [''SIX'', ''DOG'', ''USED'', ''ODES'']"

definition tie_domains :: domains where
  "tie_domains =
     [(across, [''SIX'', ''DOG'']), (down, [''USED'', ''ODES'']),
      (below, [''SIX'', ''DOG'']), (apart, [''USED'', ''ODES''])]"

text \<open>
  A vocabulary for the two crossing slots in which the first word of the across slot rules
  out more words of the down slot than the second.
\<close>

definition lcv_vocabulary :: "string list" where
  "lcv_vocabulary = [''TEN'', ''SIX'', ''USED'', ''ASKS'', ''ITEM'']"

definition lcv_domains :: domains where
  "lcv_domains = [(across, [''TEN'', ''SIX'']), (down, [''USED'', ''ASKS'', ''ITEM''])]"

section \<open>Errors of the propagation phase\<close>

lemma words_match_error: "words_match xw xo yo ys = Inl e \<Longrightarrow> e = IndexError"
  by (induction ys) (auto split: if_splits)

lemma revise_loop_error:
  "revise_loop snap x y xo yo xs st = Inl e \<Longrightarrow> e = KeyError \<or> e = IndexError"
proof (induction xs arbitrary: st)
  case Nil
  then show ?case by (cases st) simp
next
  case (Cons xw xs)
  obtain d r where st: "st = (d, r)" by (cases st)
  from Cons show ?case
    unfolding st
    by (auto simp: dict_get_def split: sum.splits bool.splits option.splits
             dest: words_match_error)
qed

lemma revise_error:
  "revise cw doms x y = Inl e \<Longrightarrow> e \<noteq> UnboundLocalError"
  by (auto simp: revise_def dict_get_def split: option.splits dest: revise_loop_error)

lemma initial_arcs_of_error:
  "initial_arcs_of cw v ns q = Inl e \<Longrightarrow> e = KeyError"
  by (induction ns arbitrary: q) (auto split: option.splits)

lemma initial_arcs_error:
  "initial_arcs cw vs q = Inl e \<Longrightarrow> e = KeyError"
  by (induction vs arbitrary: q) (auto split: sum.splits dest: initial_arcs_of_error)

lemma ac3_loop_error:
  "ac3_loop cw doms q = Inl e \<Longrightarrow> e \<noteq> UnboundLocalError"
proof (induction cw doms q rule: ac3_loop.induct)
  case (1 cw doms)
  then show ?case by simp
next
  case (2 cw doms x y queue)
  show ?case
  proof (cases "revise cw doms x y")
    case (Inl e')
    with "2.prems" show ?thesis by (auto dest: revise_error)
  next
    case (Inr r)
    obtain doms' revised where r: "r = (doms', revised)" by (cases r)
    show ?thesis
    proof (cases revised)
      case True
      with "2.prems" Inr r "2.IH"(1) [OF Inr r [symmetric] True] show ?thesis
        by (auto simp: dict_get_def split: sum.splits option.splits if_splits)
    next
      case False
      with "2.prems" Inr r "2.IH"(2) [OF Inr r [symmetric] False] show ?thesis
        by simp
    qed
  qed
qed

text \<open>
  Claim C10. Called with a non-empty list of arcs, \<open>ac3\<close> raises the unbound-variable
  error, since the queue only exists when \<open>arcs\<close> is \<open>None\<close> or empty; and on that path
  it never raises this error. So the error is raised exactly for the non-empty lists.
\<close>

theorem ac3_explicit_arcs_unusable:
  "ac3 cw doms arcs = Inl UnboundLocalError \<longleftrightarrow> (\<exists>arc rest. arcs = Some (arc # rest))"
proof
  assume err: "ac3 cw doms arcs = Inl UnboundLocalError"
  show "\<exists>arc rest. arcs = Some (arc # rest)"
  proof (rule ccontr)
    assume "\<not> (\<exists>arc rest. arcs = Some (arc # rest))"
    then have path: "arcs = None \<or> arcs = Some []"
    proof (cases arcs)
      case None
      then show ?thesis by simp
    next
      case (Some q)
      assume no: "\<not> (\<exists>arc rest. arcs = Some (arc # rest))"
      with Some show ?thesis by (cases q) auto
    qed
    show False
    proof (cases "initial_arcs cw (map fst doms) []")
      case (Inl e)
      with err path initial_arcs_error [OF Inl] show False by (auto simp: ac3_def)
    next
      case (Inr q)
      with err path have "ac3_loop cw doms q = Inl UnboundLocalError"
        by (auto simp: ac3_def)
      then show False by (auto dest: ac3_loop_error)
    qed
  qed
next
  assume "\<exists>arc rest. arcs = Some (arc # rest)"
  then show "ac3 cw doms arcs = Inl UnboundLocalError"
    by (auto simp: ac3_def)
qed

text \<open>
  Claim C5. For a pair of slots whose entry in the overlap table is \<open>None\<close>, \<open>revise\<close>
  does not return \<open>False\<close>: unpacking the entry raises \<open>TypeError\<close> before the test
  \<open>x_overlap is not None\<close> is reached.
\<close>

theorem revise_no_overlap_raises:
  "overlaps cw (x, y) = Some None \<Longrightarrow> revise cw doms x y = Inl TypeError"
  by (simp add: revise_def)

theorem revise_no_overlap_raises_witness:
  "overlaps (ladder []) (across, below) = Some None \<and>
   revise (ladder []) (init_domains (ladder [])) across below = Inl TypeError"
proof -
  have h: "overlaps (ladder []) (across, below) = Some None"
    by (simp add: ladder_def across_def below_def down_def apart_def)
  from h revise_no_overlap_raises [OF h] show ?thesis by simp
qed

section \<open>Node consistency, revisited as a filter\<close>

lemma prune_Nil: "prune P [] = []"
  by (simp add: prune_def)

lemma prune_Cons: "prune P ((k, vs) # doms) = (k, filter (P k) vs) # prune P doms"
  by (simp add: prune_def)

lemma prune_prune:
  "prune P (prune Q doms) = prune (\<lambda>k w. Q k w \<and> P k w) doms"
  by (induction doms) (auto simp: prune_Nil prune_Cons)

lemma prune_cong:
  "(\<And>k vs w. (k, vs) \<in> set doms \<Longrightarrow> w \<in> set vs \<Longrightarrow> P k w = Q k w) \<Longrightarrow>
   prune P doms = prune Q doms"
proof (induction doms)
  case Nil
  show ?case by (simp add: prune_Nil)
next
  case (Cons p doms)
  obtain k vs where p: "p = (k, vs)" by (cases p)
  have "\<And>w. w \<in> set vs \<Longrightarrow> P k w = Q k w"
    by (rule Cons.prems [of k vs]) (simp_all add: p)
  then have "filter (P k) vs = filter (Q k) vs"
    by (intro filter_cong refl)
  moreover have "prune P doms = prune Q doms"
  proof (rule Cons.IH)
    fix k' vs' w
    assume "(k', vs') \<in> set doms" "w \<in> set vs'"
    then show "P k' w = Q k' w" by (intro Cons.prems [of k' vs']) simp_all
  qed
  ultimately show ?case by (simp add: p prune_Cons)
qed

lemma prune_True: "prune (\<lambda>k w. True) doms = doms"
  by (induction doms) (auto simp: prune_Nil prune_Cons)

lemma domain_remove_prune:
  "domain_remove doms v word = prune (\<lambda>k w. \<not> (k = v \<and> w = word)) doms"
proof (induction doms)
  case Nil
  show ?case by (simp add: prune_Nil domain_remove_def)
next
  case (Cons p doms)
  obtain k vs where p: "p = (k, vs)" by (cases p)
  have "removeAll word vs = filter (\<lambda>w. w \<noteq> word) vs"
    by (simp add: removeAll_filter_not_eq) (rule filter_cong, auto)
  with Cons show ?case
    by (simp add: p prune_Cons domain_remove_Cons)
qed

lemma map_of_prune:
  "map_of (prune P doms) v = map_option (filter (P v)) (map_of doms v)"
  by (induction doms) (auto simp: prune_Nil prune_Cons)

lemma keys_prune: "map fst (prune P doms) = map fst doms"
  by (induction doms) (auto simp: prune_Nil prune_Cons)

lemma domain_of_prune: "domain_of (prune P doms) v = filter (P v) (domain_of doms v)"
  by (cases "map_of doms v") (simp_all add: domain_of_def map_of_prune)

lemma node_words_prune:
  "node_words v ws doms =
     prune (\<lambda>k w. \<not> (k = v \<and> w \<in> set ws \<and> length w \<noteq> var_length v)) doms"
proof (induction ws arbitrary: doms)
  case Nil
  show ?case by (simp add: prune_True)
next
  case (Cons word ws)
  show ?case
  proof (cases "length word \<noteq> var_length v")
    case True
    then show ?thesis
      by (simp add: Cons.IH domain_remove_prune prune_prune)
         (rule prune_cong, auto)
  next
    case False
    then show ?thesis
      by (simp add: Cons.IH) (rule prune_cong, auto)
  qed
qed

lemma node_variables_prune:
  "node_variables snap doms =
     prune (\<lambda>k w. \<not> (\<exists>ws. (k, ws) \<in> set snap \<and> w \<in> set ws \<and> length w \<noteq> var_length k)) doms"
proof (induction snap arbitrary: doms)
  case Nil
  show ?case by (simp add: prune_True)
next
  case (Cons p snap)
  obtain v ws where p: "p = (v, ws)" by (cases p)
  show ?case
    by (simp add: p Cons.IH node_words_prune prune_prune)
       (rule prune_cong, auto)
qed

lemma enforce_node_consistency_prune:
  "enforce_node_consistency doms = prune (\<lambda>k w. length w = var_length k) doms"
  unfolding enforce_node_consistency_def node_variables_prune
  by (rule prune_cong) auto

lemma domain_of_enforce_node_consistency:
  "domain_of (enforce_node_consistency doms) v =
     filter (\<lambda>w. length w = var_length v) (domain_of doms v)"
  by (simp add: enforce_node_consistency_prune domain_of_prune)

lemma keys_enforce_node_consistency:
  "map fst (enforce_node_consistency doms) = map fst doms"
  by (simp add: enforce_node_consistency_prune keys_prune)

text \<open>
  Claim C8. After \<open>enforce_node_consistency\<close>, every word left in the domain of a slot is as
  long as the slot, and every word of that length that was in the domain before is still
  there; the slots of the domain store are unchanged.
\<close>

theorem node_consistency_postcondition:
  "(\<forall>v w. w \<in> set (domain_of (enforce_node_consistency doms) v) \<longrightarrow> length w = var_length v) \<and>
   (\<forall>v w. w \<in> set (domain_of doms v) \<and> length w = var_length v \<longrightarrow>
          w \<in> set (domain_of (enforce_node_consistency doms) v)) \<and>
   map fst (enforce_node_consistency doms) = map fst doms"
  by (simp add: domain_of_enforce_node_consistency keys_enforce_node_consistency)

theorem node_consistency_postcondition_witness:
  "''USED'' \<in> set (domain_of (init_domains (crossing [''SIX'', ''USED'', ''NINE''])) down) \<and>
   length ''USED'' = var_length down \<and>
   ''USED'' \<in> set (domain_of (enforce_node_consistency
                               (init_domains (crossing [''SIX'', ''USED'', ''NINE'']))) down) \<and>
   ''SIX'' \<notin> set (domain_of (enforce_node_consistency
                               (init_domains (crossing [''SIX'', ''USED'', ''NINE'']))) down)"
proof -
  let ?doms = "init_domains (crossing [''SIX'', ''USED'', ''NINE''])"
  have before: "''USED'' \<in> set (domain_of ?doms down) \<and> length ''USED'' = var_length down"
    by (simp add: domain_of_def init_domains_def crossing_def across_def down_def)
  have "length ''SIX'' \<noteq> var_length down" by (simp add: down_def)
  with before node_consistency_postcondition [of ?doms] show ?thesis
    by blast
qed

section \<open>Revision as a filter\<close>

lemma words_match_Inr:
  "words_match xw xo yo ys = Inr b \<Longrightarrow>
   b = (\<exists>yw \<in> set ys. xo < length xw \<and> yo < length yw \<and> xw ! xo = yw ! yo)"
  by (induction ys) (auto split: if_splits)

lemma domain_of_dict_get: "dict_get doms v = Inr ws \<Longrightarrow> domain_of doms v = ws"
  by (auto simp: dict_get_def domain_of_def split: option.splits)

lemma revise_loop_prune:
  assumes "revise_loop snap x y xo yo xs (doms, r) = Inr (doms', r')"
  shows "doms' = prune (\<lambda>k w. \<not> (k = x \<and> w \<in> set xs \<and>
             \<not> (\<exists>yw \<in> set (domain_of snap y). xo < length w \<and> yo < length yw \<and> w ! xo = yw ! yo))) doms
         \<and> r' = (r \<or> (\<exists>w \<in> set xs.
             \<not> (\<exists>yw \<in> set (domain_of snap y). xo < length w \<and> yo < length yw \<and> w ! xo = yw ! yo)))"
  using assms
proof (induction xs arbitrary: doms r)
  case Nil
  then show ?case by (simp add: prune_True)
next
  case (Cons xw xs)
  let ?S = "\<lambda>w. \<exists>yw \<in> set (domain_of snap y). xo < length w \<and> yo < length yw \<and> w ! xo = yw ! yo"
  from Cons.prems obtain ys where ys: "dict_get snap y = Inr ys"
    by (auto split: sum.splits)
  from Cons.prems ys obtain b where b: "words_match xw xo yo ys = Inr b"
    by (auto split: sum.splits)
  have dom_y: "domain_of snap y = ys" using ys by (rule domain_of_dict_get)
  have bS: "b = ?S xw" using words_match_Inr [OF b] dom_y by simp
  show ?case
  proof (cases b)
    case True
    with Cons.prems ys b have "revise_loop snap x y xo yo xs (doms, r) = Inr (doms', r')"
      by simp
    from Cons.IH [OF this] True bS
    have d: "doms' = prune (\<lambda>k w. \<not> (k = x \<and> w \<in> set xs \<and> \<not> ?S w)) doms"
      and f: "r' = (r \<or> (\<exists>w \<in> set xs. \<not> ?S w))" by simp_all
    have "prune (\<lambda>k w. \<not> (k = x \<and> w \<in> set xs \<and> \<not> ?S w)) doms =
          prune (\<lambda>k w. \<not> (k = x \<and> w \<in> set (xw # xs) \<and> \<not> ?S w)) doms"
      using True bS by (intro prune_cong) auto
    with d f True bS show ?thesis by auto
  next
    case False
    with Cons.prems ys b
    have "revise_loop snap x y xo yo xs (domain_remove doms x xw, True) = Inr (doms', r')"
      by simp
    from Cons.IH [OF this]
    have d: "doms' = prune (\<lambda>k w. \<not> (k = x \<and> w \<in> set xs \<and> \<not> ?S w)) (domain_remove doms x xw)"
      and f: "r'" by simp_all
    have "prune (\<lambda>k w. \<not> (k = x \<and> w \<in> set xs \<and> \<not> ?S w)) (domain_remove doms x xw) =
          prune (\<lambda>k w. \<not> (k = x \<and> w \<in> set (xw # xs) \<and> \<not> ?S w)) doms"
      unfolding domain_remove_prune prune_prune
      using False bS by (intro prune_cong) auto
    with d f False bS show ?thesis by auto
  qed
qed

lemma revise_prune:
  assumes "revise cw doms x y = Inr (doms', revised)"
  shows "doms' = prune (\<lambda>k w. \<not> (k = x \<and> w \<in> set (domain_of doms x) \<and>
                                 \<not> supported cw doms x y w)) doms"
    and "revised = (\<exists>w \<in> set (domain_of doms x). \<not> supported cw doms x y w)"
    and "\<exists>p. overlaps cw (x, y) = Some (Some p)"
    and "map_of doms x \<noteq> None"
proof -
  from assms obtain xo yo where ov: "overlaps cw (x, y) = Some (Some (xo, yo))"
    by (auto simp: revise_def split: option.splits)
  from assms ov obtain xs where xs: "dict_get doms x = Inr xs"
    by (auto simp: revise_def split: sum.splits)
  from assms ov xs have loop: "revise_loop doms x y xo yo xs (doms, False) = Inr (doms', revised)"
    by (simp add: revise_def)
  have sup: "supported cw doms x y w =
        (\<exists>yw \<in> set (domain_of doms y). xo < length w \<and> yo < length yw \<and> w ! xo = yw ! yo)" for w
    by (simp add: supported_def overlap_agrees_def ov)
  have dx: "domain_of doms x = xs" using xs by (rule domain_of_dict_get)
  from revise_loop_prune [OF loop]
  show "doms' = prune (\<lambda>k w. \<not> (k = x \<and> w \<in> set (domain_of doms x) \<and>
                                 \<not> supported cw doms x y w)) doms"
    and "revised = (\<exists>w \<in> set (domain_of doms x). \<not> supported cw doms x y w)"
    by (simp_all add: sup dx)
  show "\<exists>p. overlaps cw (x, y) = Some (Some p)" using ov by simp
  show "map_of doms x \<noteq> None" using xs by (auto simp: dict_get_def split: option.splits)
qed

lemma revise_domain_of:
  assumes "revise cw doms x y = Inr (doms', revised)"
  shows "domain_of doms' k =
           (if k = x then filter (supported cw doms x y) (domain_of doms x) else domain_of doms k)"
proof (cases "k = x")
  case True
  have "filter (\<lambda>w. \<not> (w \<in> set (domain_of doms x) \<and> \<not> supported cw doms x y w)) (domain_of doms x)
        = filter (supported cw doms x y) (domain_of doms x)"
    by (rule filter_cong) auto
  with True show ?thesis
    by (simp add: revise_prune(1) [OF assms] domain_of_prune)
next
  case False
  then show ?thesis
    by (simp add: revise_prune(1) [OF assms] domain_of_prune)
qed

lemma revise_keys:
  "revise cw doms x y = Inr (doms', revised) \<Longrightarrow> map fst doms' = map fst doms"
  by (drule revise_prune(1)) (simp add: keys_prune)

lemma ac3_loop_keys:
  "ac3_loop cw doms q = Inr (doms', b) \<Longrightarrow> map fst doms' = map fst doms"
proof (induction cw doms q rule: ac3_loop.induct)
  case (1 cw doms)
  then show ?case by simp
next
  case (2 cw doms x y queue)
  from "2.prems" obtain d revised where rv: "revise cw doms x y = Inr (d, revised)"
    by (auto split: sum.splits)
  have keys: "map fst d = map fst doms" using rv by (rule revise_keys)
  show ?case
  proof (cases revised)
    case True
    from "2.prems" rv True obtain xs where xs: "dict_get d x = Inr xs"
      by (auto split: sum.splits)
    show ?thesis
    proof (cases "length xs = 0")
      case empty: True
      with "2.prems" rv True xs keys show ?thesis by simp
    next
      case False
      with "2.prems" rv True xs
      have "ac3_loop cw d (queue @ map (\<lambda>neighbor. (neighbor, x))
               (filter (\<lambda>neighbor. neighbor \<noteq> y) (neighbors cw x))) = Inr (doms', b)"
        by simp
      from "2.IH"(1) [OF rv refl True xs False this] keys show ?thesis by simp
    qed
  next
    case False
    with "2.prems" rv have "ac3_loop cw d queue = Inr (doms', b)" by simp
    from "2.IH"(2) [OF rv refl False this] keys show ?thesis by simp
  qed
qed

lemma ac3_keys:
  "ac3 cw doms arcs = Inr (doms', b) \<Longrightarrow> map fst doms' = map fst doms"
  by (auto simp: ac3_def split: if_splits sum.splits dest: ac3_loop_keys)

lemma keys_init_domains: "map fst (init_domains cw) = variables cw"
  by (simp add: init_domains_def comp_def)

lemma select_unassigned_variable_min:
  assumes "select_unassigned_variable doms a = Inr v"
  shows "\<exists>ws. (v, ws) \<in> set doms \<and> map_of a v = None \<and>
              (\<forall>u us. (u, us) \<in> set doms \<and> map_of a u = None \<longrightarrow> length ws \<le> length us)"
proof -
  let ?c = "filter (\<lambda>(variable, ws). map_of a variable = None) doms"
  let ?f = "\<lambda>item :: variable \<times> string list. length (snd item)"
  from assms obtain rest where "map fst (sort_key ?f ?c) = v # rest"
    by (auto simp: select_unassigned_variable_def Let_def split: list.splits)
  then obtain ws tl where s: "sort_key ?f ?c = (v, ws) # tl"
    by (cases "sort_key ?f ?c") auto
  have "sorted (map ?f (sort_key ?f ?c))" by (rule sorted_sort_key)
  with s have le: "\<forall>p \<in> set tl. length ws \<le> length (snd p)" by simp
  have "set (sort_key ?f ?c) = set ?c" by (rule set_sort)
  with s have mem: "set ?c = insert (v, ws) (set tl)" by simp
  then have "(v, ws) \<in> set ?c" by simp
  then have 1: "(v, ws) \<in> set doms" and 2: "map_of a v = None" by simp_all
  have 3: "length ws \<le> length us" if "(u, us) \<in> set doms \<and> map_of a u = None" for u us
  proof -
    from that have "(u, us) \<in> set ?c" by simp
    with mem have "(u, us) = (v, ws) \<or> (u, us) \<in> set tl" by simp
    then show ?thesis
    proof
      assume "(u, us) = (v, ws)"
      then show ?thesis by simp
    next
      assume "(u, us) \<in> set tl"
      with le have "length ws \<le> length (snd (u, us))" by (rule bspec)
      then show ?thesis by simp
    qed
  qed
  from 1 2 3 show ?thesis by (intro exI [of _ ws] conjI allI impI)
qed

section \<open>Search on an emptied domain\<close>

lemma select_unassigned_variable_empty:
  assumes "doms \<noteq> []"
  shows "\<exists>u. select_unassigned_variable doms [] = Inr u"
proof -
  let ?f = "\<lambda>item :: variable \<times> string list. length (snd item)"
  have f: "filter (\<lambda>(variable, ws). map_of ([] :: assignment) variable = None) doms = doms"
    by (induction doms) auto
  have "length (sort_key ?f doms) \<noteq> 0"
    using assms by (simp only: length_sort length_0_conv not_False_eq_True)
  then have "sort_key ?f doms \<noteq> []"
    by (simp only: length_0_conv not_False_eq_True)
  then obtain p rest where "sort_key ?f doms = p # rest"
    by (auto simp: neq_Nil_conv)
  then show ?thesis
    by (simp add: select_unassigned_variable_def Let_def f)
qed

text \<open>
  Claim C3. When node consistency and AC-3 leave some slot with an empty domain, \<open>solve\<close>
  returns \<open>None\<close>: the slot with the empty domain is selected first and the loop over its
  words has nothing to try.
\<close>

theorem solve_none_on_empty_domain:
  assumes "distinct (variables cw)"
    and "ac3 cw (enforce_node_consistency (init_domains cw)) None = Inr (doms', b)"
    and "v \<in> set (variables cw)" and "domain_of doms' v = []"
  shows "solve cw = Inr None"
proof -
  have "map fst doms' = map fst (enforce_node_consistency (init_domains cw))"
    using assms(2) by (rule ac3_keys)
  then have keys: "map fst doms' = variables cw"
    by (simp only: keys_enforce_node_consistency keys_init_domains)
  with assms(1) have dist: "distinct (map fst doms')" by simp
  from assms(3) have "v \<in> set (map fst doms')" by (simp only: keys)
  then have "v \<in> fst ` set doms'" by (simp only: set_map)
  then obtain vs where vs: "(v, vs) \<in> set doms'" by force
  with dist have "map_of doms' v = Some vs" by (rule map_of_is_SomeI)
  with assms(4) have "vs = []" by (simp add: domain_of_def)
  with vs have empty: "(v, []) \<in> set doms'" by simp
  then have ne: "doms' \<noteq> []" by auto
  from select_unassigned_variable_empty [OF ne]
  obtain u where u: "select_unassigned_variable doms' [] = Inr u" by blast
  from select_unassigned_variable_min [OF u] obtain us
    where us: "(u, us) \<in> set doms'"
      and least: "\<forall>k ks. (k, ks) \<in> set doms' \<and> map_of ([] :: assignment) k = None \<longrightarrow> length us \<le> length ks"
    by blast
  from empty have "(v, []) \<in> set doms' \<and> map_of ([] :: assignment) v = None" by simp
  with least have "length us \<le> length ([] :: string list)" by (elim allE impE)
  then have "us = []" by simp
  with us dist have "map_of doms' u = Some []" by (simp only: map_of_is_SomeI)
  then have get: "dict_get doms' u = Inr []" by (simp add: dict_get_def)
  from ne have len: "length ([] :: assignment) \<noteq> length doms'" by simp
  have "backtrack cw doms' [] = Inr None"
    by (subst backtrack.simps) (simp only: len u get if_False sum.case for_values.simps)
  with assms(2) show ?thesis by (simp add: solve_def)
qed

theorem solve_none_on_empty_domain_witness:
  "ac3 (crossing [''SIX'', ''NINE'', ''FIVE''])
       (enforce_node_consistency (init_domains (crossing [''SIX'', ''NINE'', ''FIVE'']))) None
     = Inr ([(across, []), (down, [''NINE'', ''FIVE''])], False) \<and>
   solve (crossing [''SIX'', ''NINE'', ''FIVE'']) = Inr None"
proof -
  let ?cw = "crossing [''SIX'', ''NINE'', ''FIVE'']"
  have d: "distinct (variables ?cw)"
    by (simp add: crossing_def across_def down_def)
  have a: "ac3 ?cw (enforce_node_consistency (init_domains ?cw)) None
             = Inr ([(across, []), (down, [''NINE'', ''FIVE''])], False)"
    by code_simp
  have v: "across \<in> set (variables ?cw)" by (simp add: crossing_def)
  have e: "domain_of [(across, []), (down, [''NINE'', ''FIVE''])] across = []"
    by (simp add: domain_of_def)
  from a solve_none_on_empty_domain [OF d a v e] show ?thesis by simp
qed

section \<open>The heuristics of the search\<close>

text \<open>
  Claim C6. The selected slot is an unassigned one with the fewest remaining words, but ties
  are not broken by degree: with four slots whose domains all hold two words,
  \<open>select_unassigned_variable\<close> returns the across slot, which has one neighbor, although
  the down slot has two.
\<close>

theorem select_ignores_degree:
  "ac3 (ladder tie_vocabulary) (enforce_node_consistency (init_domains (ladder tie_vocabulary))) None
     = Inr (tie_domains, True) \<and>
   select_unassigned_variable tie_domains [] = Inr across \<and>
   length (domain_of tie_domains across) = length (domain_of tie_domains down) \<and>
   neighbors (ladder tie_vocabulary) across = [down] \<and>
   neighbors (ladder tie_vocabulary) down = [across, below]"
  by code_simp


text \<open>
  Claim C7. \<open>backtrack\<close> does not try the words in the order of
  \<open>order_domain_values\<close>: it iterates over the domain itself. Here the heuristic puts
  \<open>SIX\<close> first, the branch of \<open>SIX\<close> succeeds, and yet the search returns the assignment
  of \<open>TEN\<close>, the first word of the domain.
\<close>

theorem backtrack_ignores_value_order:
  "ac3 (crossing lcv_vocabulary) (enforce_node_consistency (init_domains (crossing lcv_vocabulary))) None
     = Inr (lcv_domains, True) \<and>
   select_unassigned_variable lcv_domains [] = Inr across \<and>
   order_domain_values (crossing lcv_vocabulary) lcv_domains across [] = Inr [''SIX'', ''TEN''] \<and>
   backtrack (crossing lcv_vocabulary) lcv_domains [(across, ''SIX'')]
     = Inr (Some [(across, ''SIX''), (down, ''USED'')]) \<and>
   backtrack (crossing lcv_vocabulary) lcv_domains []
     = Inr (Some [(across, ''TEN''), (down, ''ITEM'')]) \<and>
   solve (crossing lcv_vocabulary) = Inr (Some [(across, ''TEN''), (down, ''ITEM'')])"
  by code_simp

section \<open>The consistency check, in logical form\<close>

lemma check_neighbors_True:
  "(check_neighbors cw a v w ns = Inr True) =
   (\<forall>n nw. n \<in> set ns \<and> map_of a n = Some nw \<longrightarrow> overlap_agrees cw v w n nw)"
proof (induction ns)
  case Nil
  show ?case by simp
next
  case (Cons n ns)
  show ?case
  proof (cases "map_of a n")
    case None
    with Cons show ?thesis by auto
  next
    case (Some nw)
    show ?thesis
    proof (cases "overlap_agrees cw v w n nw")
      case True
      then obtain x y where "overlaps cw (v, n) = Some (Some (x, y))"
        and "x < length w" "y < length nw" "w ! x = nw ! y"
        by (auto simp: overlap_agrees_def split: option.splits)
      with Some Cons True show ?thesis by auto
    next
      case False
      then have "check_neighbors cw a v w (n # ns) \<noteq> Inr True"
        using Some by (auto simp: overlap_agrees_def split: option.splits)
      moreover have "\<not> (\<forall>n' nw. n' \<in> set (n # ns) \<and> map_of a n' = Some nw \<longrightarrow>
                          overlap_agrees cw v w n' nw)"
        using False Some by auto
      ultimately show ?thesis by simp
    qed
  qed
qed

lemma check_overlaps_True:
  "(check_overlaps cw a rest = Inr True) =
   (\<forall>v w. (v, w) \<in> set rest \<longrightarrow> check_neighbors cw a v w (neighbors cw v) = Inr True)"
proof (induction rest)
  case Nil
  show ?case by simp
next
  case (Cons p rest)
  obtain v w where p: "p = (v, w)" by (cases p)
  show ?case
  proof (cases "check_neighbors cw a v w (neighbors cw v) = Inr True")
    case True
    with Cons p show ?thesis by auto
  next
    case False
    then have "check_overlaps cw a (p # rest) \<noteq> Inr True"
      by (auto simp: p split: sum.splits bool.splits)
    with False p show ?thesis by auto
  qed
qed

lemma consistent_True:
  "(consistent cw a = Inr True) =
   (distinct (map snd a) \<and>
    (\<forall>v w. (v, w) \<in> set a \<longrightarrow> length w = var_length v) \<and>
    (\<forall>v w n nw. (v, w) \<in> set a \<and> n \<in> set (neighbors cw v) \<and> map_of a n = Some nw \<longrightarrow>
        overlap_agrees cw v w n nw))"
proof -
  have 1: "(length (map snd a) \<noteq> length (remdups (map snd a))) = (\<not> distinct (map snd a))"
    by (metis length_remdups_eq remdups_id_iff_distinct)
  have 2: "list_all (\<lambda>(variable, word). var_length variable = length word) a =
           (\<forall>v w. (v, w) \<in> set a \<longrightarrow> length w = var_length v)"
    by (auto simp: list_all_iff)
  have 3: "(check_overlaps cw a a = Inr True) =
           (\<forall>v w n nw. (v, w) \<in> set a \<and> n \<in> set (neighbors cw v) \<and> map_of a n = Some nw \<longrightarrow>
              overlap_agrees cw v w n nw)"
    unfolding check_overlaps_True check_neighbors_True by blast
  show ?thesis
    unfolding consistent_def 1 2 [symmetric] 3 [symmetric] by auto
qed

lemma consistent_spec_iff:
  assumes "distinct (map fst a)"
  shows "consistent_spec cw a = (consistent cw a = Inr True)"
proof -
  have m: "(map_of a n = Some nw) = ((n, nw) \<in> set a)" for n nw
    using assms by (rule map_of_eq_Some_iff)
  have "consistent_spec cw a =
     (distinct (map snd a) \<and>
      (\<forall>v w. (v, w) \<in> set a \<longrightarrow> length w = var_length v) \<and>
      (\<forall>v w n nw. (v, w) \<in> set a \<and> n \<in> set (neighbors cw v) \<and> (n, nw) \<in> set a \<longrightarrow>
          overlap_agrees cw v w n nw))"
    unfolding consistent_spec_def by (simp add: Ball_def) blast
  then show ?thesis unfolding consistent_True m .
qed

section \<open>Soundness of the search\<close>

lemma for_values_Some:
  "for_values body vs = Inr (Some r) \<Longrightarrow> \<exists>v \<in> set vs. body v = Inr (Some r)"
proof (induction vs)
  case Nil
  then show ?case by simp
next
  case (Cons v vs)
  show ?case
  proof (cases "body v")
    case (Inl e)
    with Cons.prems show ?thesis by simp
  next
    case (Inr res)
    show ?thesis
    proof (cases res)
      case None
      with Inr Cons show ?thesis by simp
    next
      case (Some r')
      with Inr Cons.prems show ?thesis by simp
    qed
  qed
qed

lemma keys_dict_set:
  "map fst (dict_set a k v) = (if k \<in> set (map fst a) then map fst a else map fst a @ [k])"
  by (induction a) force+

lemma map_of_None_keys: "(map_of a k = None) = (k \<notin> set (map fst a))"
  by (simp add: map_of_eq_None_iff)

lemma partial_ok_extend:
  assumes "partial_ok cw doms a" and "select_unassigned_variable doms a = Inr v"
    and "consistent cw (dict_set a v w) = Inr True"
  shows "partial_ok cw doms (dict_set a v w)"
proof -
  from assms(2) have "v \<in> set (unassigned doms a)" by (rule select_unassigned_variable_in)
  then have in_doms: "v \<in> set (map fst doms)" and new: "v \<notin> set (map fst a)"
    by (simp_all add: unassigned_def map_of_None_keys)
  from new have keys: "map fst (dict_set a v w) = map fst a @ [v]"
    by (simp add: keys_dict_set)
  from assms(1) new in_doms assms(3) show ?thesis
    by (simp add: partial_ok_def keys)
qed

lemma backtrack_sound:
  "backtrack cw doms a0 = Inr (Some a) \<Longrightarrow> partial_ok cw doms a0 \<Longrightarrow>
   partial_ok cw doms a \<and> length a = length doms"
proof (induction cw doms a0 rule: backtrack.induct)
  case (1 cw doms a0)
  show ?case
  proof (cases "length a0 = length doms")
    case True
    with "1.prems" show ?thesis by (simp add: backtrack.simps)
  next
    case False
    from "1.prems"(1) False obtain v where v: "select_unassigned_variable doms a0 = Inr v"
      by (subst (asm) backtrack.simps) (auto split: sum.splits)
    from "1.prems"(1) False v obtain ws where ws: "dict_get doms v = Inr ws"
      by (subst (asm) backtrack.simps) (auto split: sum.splits)
    let ?body = "\<lambda>value. case consistent cw (dict_set a0 v value) of
                   Inl e \<Rightarrow> Inl e
                 | Inr False \<Rightarrow> Inr None
                 | Inr True \<Rightarrow> backtrack cw doms (dict_set a0 v value)"
    from "1.prems"(1) False v ws have "for_values ?body ws = Inr (Some a)"
      by (subst (asm) backtrack.simps) simp
    then obtain w where w: "w \<in> set ws" and b: "?body w = Inr (Some a)"
      by (auto dest: for_values_Some)
    from b have c: "consistent cw (dict_set a0 v w) = Inr True"
      by (auto split: sum.splits bool.splits)
    with b have r: "backtrack cw doms (dict_set a0 v w) = Inr (Some a)" by simp
    have "partial_ok cw doms (dict_set a0 v w)"
      using "1.prems"(2) v c by (rule partial_ok_extend)
    with "1.IH" [OF False v ws w c refl r] show ?thesis by simp
  qed
qed

lemma partial_ok_complete:
  assumes "partial_ok cw doms a" and "length a = length doms"
  shows "set (map fst a) = set (map fst doms)"
proof (rule card_seteq)
  show "finite (set (map fst doms))" by simp
  show "set (map fst a) \<subseteq> set (map fst doms)" using assms(1) by (simp add: partial_ok_def)
  have "card (set (map fst doms)) \<le> length (map fst doms)" by (rule card_length)
  also have "\<dots> = length (map fst a)" using assms(2) by simp
  also have "\<dots> = card (set (map fst a))"
    using assms(1) by (simp only: partial_ok_def distinct_card)
  finally show "card (set (map fst doms)) \<le> card (set (map fst a))" .
qed

lemma partial_ok_empty: "partial_ok cw doms []"
  by (simp add: partial_ok_def consistent_def)

lemma solve_keys:
  assumes "ac3 cw (enforce_node_consistency (init_domains cw)) None = Inr (doms', b)"
  shows "map fst doms' = variables cw"
proof -
  have "map fst doms' = map fst (enforce_node_consistency (init_domains cw))"
    using assms by (rule ac3_keys)
  then show ?thesis by (simp only: keys_enforce_node_consistency keys_init_domains)
qed

text \<open>
  Claim C1. An assignment returned by \<open>solve\<close> is complete (its keys are exactly the slots
  of the puzzle, so every slot has a word) and passes the consistency check, that is: the
  words are pairwise distinct, every word is as long as its slot, and assigned neighbors
  agree at the offsets of their overlap.
\<close>

theorem solve_sound:
  assumes "solve cw = Inr (Some a)"
  shows "distinct (map fst a) \<and> set (map fst a) = set (variables cw) \<and>
         (\<forall>v \<in> set (variables cw). \<exists>w. map_of a v = Some w) \<and>
         consistent cw a = Inr True \<and> consistent_spec cw a"
proof -
  from assms obtain doms' b
    where ac: "ac3 cw (enforce_node_consistency (init_domains cw)) None = Inr (doms', b)"
      and bt: "backtrack cw doms' [] = Inr (Some a)"
    by (auto simp: solve_def split: sum.splits)
  from backtrack_sound [OF bt partial_ok_empty]
  have ok: "partial_ok cw doms' a" and len: "length a = length doms'" by simp_all
  from ok have d: "distinct (map fst a)" and c: "consistent cw a = Inr True"
    by (simp_all add: partial_ok_def)
  have k: "set (map fst a) = set (variables cw)"
    using partial_ok_complete [OF ok len] solve_keys [OF ac] by simp
  have "\<exists>w. map_of a v = Some w" if "v \<in> set (variables cw)" for v
  proof -
    from that k have "v \<in> set (map fst a)" by simp
    then have "map_of a v \<noteq> None" by (simp only: map_of_None_keys not_not)
    then show ?thesis by auto
  qed
  moreover have "consistent_spec cw a" using c d by (simp add: consistent_spec_iff)
  ultimately show ?thesis using d k c by blast
qed

theorem solve_sound_witness:
  "solve (crossing [''SIX'', ''USED'', ''NINE'']) = Inr (Some [(across, ''SIX''), (down, ''USED'')]) \<and>
   set (map fst [(across, ''SIX''), (down, ''USED'')]) = set (variables (crossing [''SIX'', ''USED'', ''NINE''])) \<and>
   consistent (crossing [''SIX'', ''USED'', ''NINE'']) [(across, ''SIX''), (down, ''USED'')] = Inr True \<and>
   consistent_spec (crossing [''SIX'', ''USED'', ''NINE'']) [(across, ''SIX''), (down, ''USED'')]"
proof -
  have s: "solve (crossing [''SIX'', ''USED'', ''NINE'']) = Inr (Some [(across, ''SIX''), (down, ''USED'')])"
    by code_simp
  from s solve_sound [OF s] show ?thesis by simp
qed

section \<open>Propagation keeps the words of a solution\<close>

lemma solution_word:
  assumes "solution cw s" and "v \<in> set (variables cw)"
  shows "\<exists>w. (v, w) \<in> set s \<and> map_of s v = Some w"
proof -
  from assms have "v \<in> set (map fst s)" by (simp add: solution_def)
  then obtain w where w: "(v, w) \<in> set s" by force
  moreover from assms(1) have "distinct (map fst s)" by (simp add: solution_def)
  ultimately have "map_of s v = Some w" by simp
  with w show ?thesis by blast
qed

lemma solution_agrees:
  assumes "solution cw s" and "(x, w) \<in> set s" and "y \<in> set (neighbors cw x)"
    and "(y, w2) \<in> set s"
  shows "overlap_agrees cw x w y w2"
proof -
  from assms(1) have d: "distinct (map fst s)" and c: "consistent cw s = Inr True"
    by (simp_all add: solution_def)
  from d assms(4) have "map_of s y = Some w2" by simp
  with c assms(2,3) show ?thesis unfolding consistent_True by blast
qed

lemma neighbors_subset: "n \<in> set (neighbors cw x) \<Longrightarrow> n \<in> set (variables cw) \<and> n \<noteq> x"
  by (simp add: neighbors_def)

lemma solution_neighbors_sym:
  assumes "solution cw s" and "x \<in> set (variables cw)" and "n \<in> set (neighbors cw x)"
  shows "x \<in> set (neighbors cw n)"
proof -
  from assms(3) have n: "n \<in> set (variables cw)" "n \<noteq> x" by (simp_all add: neighbors_def)
  from solution_word [OF assms(1,2)] obtain w where w: "(x, w) \<in> set s" by blast
  from solution_word [OF assms(1) n(1)] obtain w2 where w2: "(n, w2) \<in> set s" by blast
  from solution_agrees [OF assms(1) w assms(3) w2]
  have "has_overlap cw x n"
    by (auto simp: overlap_agrees_def has_overlap_def split: option.splits)
  with assms(2) n(2) show ?thesis by (simp add: neighbors_def)
qed

lemma keeps_init:
  assumes "solution cw s"
  shows "keeps s (init_domains cw)"
proof -
  have dom: "domain_of (init_domains cw) v = words cw" if "v \<in> set (variables cw)" for v
  proof -
    have "map_of (map (\<lambda>var. (var, words cw)) (variables cw)) v = Some (words cw)"
      using that by (induction "variables cw") (auto simp: map_of_map_restrict)
    then show ?thesis by (simp add: domain_of_def init_domains_def)
  qed
  show ?thesis
    unfolding keeps_def
  proof (intro allI impI)
    fix v w assume vw: "(v, w) \<in> set s"
    then have "v \<in> set (map fst s)" by force
    with assms have v: "v \<in> set (variables cw)" by (simp add: solution_def)
    from vw have "w \<in> set (map snd s)" by force
    with assms have "w \<in> set (words cw)" by (auto simp: solution_def)
    with dom [OF v] show "w \<in> set (domain_of (init_domains cw) v)" by simp
  qed
qed

lemma keeps_node:
  assumes "solution cw s" and "keeps s doms"
  shows "keeps s (enforce_node_consistency doms)"
  unfolding keeps_def
proof (intro allI impI)
  fix v w assume vw: "(v, w) \<in> set s"
  from assms(1) have "consistent cw s = Inr True" by (simp add: solution_def)
  with vw have "length w = var_length v" unfolding consistent_True by blast
  moreover from assms(2) vw have "w \<in> set (domain_of doms v)" by (simp add: keeps_def)
  ultimately show "w \<in> set (domain_of (enforce_node_consistency doms) v)"
    by (simp add: domain_of_enforce_node_consistency)
qed

lemma keeps_revise:
  assumes "solution cw s" and "keeps s doms" and "arc_ok cw (x, y)"
    and "revise cw doms x y = Inr (doms', revised)"
  shows "keeps s doms'"
  unfolding keeps_def
proof (intro allI impI)
  fix v w assume vw: "(v, w) \<in> set s"
  with assms(2) have in_dom: "w \<in> set (domain_of doms v)" by (simp add: keeps_def)
  show "w \<in> set (domain_of doms' v)"
  proof (cases "v = x")
    case False
    with in_dom show ?thesis by (simp add: revise_domain_of [OF assms(4)])
  next
    case True
    from assms(3) have y: "y \<in> set (neighbors cw x)" by (simp add: arc_ok_def)
    then have "y \<in> set (variables cw)" by (simp add: neighbors_def)
    from solution_word [OF assms(1) this] obtain w2 where w2: "(y, w2) \<in> set s" by blast
    with assms(2) have "w2 \<in> set (domain_of doms y)" by (simp add: keeps_def)
    moreover from vw True have "(x, w) \<in> set s" by simp
    from solution_agrees [OF assms(1) this y w2] have "overlap_agrees cw x w y w2" .
    ultimately have "supported cw doms x y w" by (auto simp: supported_def)
    with in_dom True show ?thesis by (simp add: revise_domain_of [OF assms(4)])
  qed
qed

lemma initial_arcs_of_ok:
  assumes "initial_arcs_of cw v ns q = Inr q'" and "\<forall>arc \<in> set q. arc_ok cw arc"
    and "v \<in> set (variables cw)" and "set ns \<subseteq> set (neighbors cw v)"
  shows "\<forall>arc \<in> set q'. arc_ok cw arc"
  using assms
proof (induction ns arbitrary: q)
  case Nil
  then show ?case by simp
next
  case (Cons n ns)
  from Cons.prems(4) have n: "n \<in> set (neighbors cw v)" and ns: "set ns \<subseteq> set (neighbors cw v)"
    by simp_all
  show ?case
  proof (cases "overlaps cw (v, n)")
    case None
    with Cons.prems(1) show ?thesis by simp
  next
    case (Some e)
    show ?thesis
    proof (cases e)
      case None
      with Some Cons.prems(1) have "initial_arcs_of cw v ns q = Inr q'" by simp
      from Cons.IH [OF this Cons.prems(2,3) ns] show ?thesis .
    next
      case (Some p)
      with \<open>overlaps cw (v, n) = Some e\<close> Cons.prems(1)
      have r: "initial_arcs_of cw v ns (q @ [(v, n)]) = Inr q'" by simp
      have "\<forall>arc \<in> set (q @ [(v, n)]). arc_ok cw arc"
        using Cons.prems(2,3) n by (simp add: arc_ok_def)
      from Cons.IH [OF r this Cons.prems(3) ns] show ?thesis .
    qed
  qed
qed

lemma initial_arcs_ok:
  assumes "initial_arcs cw vs q = Inr q'" and "\<forall>arc \<in> set q. arc_ok cw arc"
    and "set vs \<subseteq> set (variables cw)"
  shows "\<forall>arc \<in> set q'. arc_ok cw arc"
  using assms
proof (induction vs arbitrary: q)
  case Nil
  then show ?case by simp
next
  case (Cons v vs)
  from Cons.prems(1) obtain q1 where q1: "initial_arcs_of cw v (neighbors cw v) q = Inr q1"
    and r: "initial_arcs cw vs q1 = Inr q'"
    by (auto split: sum.splits)
  from Cons.prems(3) have v: "v \<in> set (variables cw)" and vs: "set vs \<subseteq> set (variables cw)"
    by simp_all
  have "\<forall>arc \<in> set q1. arc_ok cw arc"
    using q1 Cons.prems(2) v by (rule initial_arcs_of_ok) simp
  from Cons.IH [OF r this vs] show ?case .
qed

lemma keeps_ac3_loop:
  "ac3_loop cw doms q = Inr (doms', b) \<Longrightarrow> solution cw s \<Longrightarrow> keeps s doms \<Longrightarrow>
   \<forall>arc \<in> set q. arc_ok cw arc \<Longrightarrow> keeps s doms'"
proof (induction cw doms q rule: ac3_loop.induct)
  case (1 cw doms)
  then show ?case by simp
next
  case (2 cw doms x y queue)
  note sol = "2.prems"(2)
  from "2.prems"(1) obtain d revised where rv: "revise cw doms x y = Inr (d, revised)"
    by (auto split: sum.splits)
  from "2.prems"(4) have xy: "arc_ok cw (x, y)" and rest: "\<forall>arc \<in> set queue. arc_ok cw arc"
    by simp_all
  have kd: "keeps s d" using sol "2.prems"(3) xy rv by (rule keeps_revise)
  show ?case
  proof (cases revised)
    case True
    from "2.prems"(1) rv True obtain xs where xs: "dict_get d x = Inr xs"
      by (auto split: sum.splits)
    show ?thesis
    proof (cases "length xs = 0")
      case empty: True
      with "2.prems"(1) rv True xs kd show ?thesis by simp
    next
      case False
      let ?q = "queue @ map (\<lambda>neighbor. (neighbor, x))
                 (filter (\<lambda>neighbor. neighbor \<noteq> y) (neighbors cw x))"
      from "2.prems"(1) rv True xs False
      have r: "ac3_loop cw d ?q = Inr (doms', b)" by simp
      from xy have x: "x \<in> set (variables cw)" by (simp add: arc_ok_def)
      have "arc_ok cw (n, x)" if "n \<in> set (neighbors cw x)" for n
        using solution_neighbors_sym [OF sol x that] neighbors_subset [OF that]
        by (simp add: arc_ok_def)
      with rest have "\<forall>arc \<in> set ?q. arc_ok cw arc" by auto
      from "2.IH"(1) [OF rv refl True xs False r sol kd this] show ?thesis .
    qed
  next
    case False
    with "2.prems"(1) rv have r: "ac3_loop cw d queue = Inr (doms', b)" by simp
    from "2.IH"(2) [OF rv refl False r sol kd rest] show ?thesis .
  qed
qed

lemma keeps_ac3:
  assumes "solution cw s" and "ac3 cw doms None = Inr (doms', b)" and "keeps s doms"
    and "set (map fst doms) \<subseteq> set (variables cw)"
  shows "keeps s doms'"
proof -
  from assms(2) obtain q where q: "initial_arcs cw (map fst doms) [] = Inr q"
    and l: "ac3_loop cw doms q = Inr (doms', b)"
    by (auto simp: ac3_def split: sum.splits)
  have "\<forall>arc \<in> set q. arc_ok cw arc"
    using q _ assms(4) by (rule initial_arcs_ok) simp
  with keeps_ac3_loop [OF l assms(1) assms(3)] show ?thesis by simp
qed

section \<open>Completeness of the search\<close>

lemma for_values_None:
  "for_values body vs = Inr None \<Longrightarrow> \<forall>v \<in> set vs. body v = Inr None"
proof (induction vs)
  case Nil
  then show ?case by simp
next
  case (Cons v vs)
  show ?case
  proof (cases "body v")
    case (Inl e)
    with Cons.prems show ?thesis by simp
  next
    case (Inr res)
    show ?thesis
    proof (cases res)
      case None
      with Inr Cons show ?thesis by simp
    next
      case (Some r')
      with Inr Cons.prems show ?thesis by simp
    qed
  qed
qed

lemma dict_set_append: "k \<notin> set (map fst a) \<Longrightarrow> dict_set a k v = a @ [(k, v)]"
  by (induction a) auto

lemma consistent_mono:
  assumes "distinct (map fst s)" and "consistent cw s = Inr True"
    and "set a \<subseteq> set s" and "distinct (map fst a)"
  shows "consistent cw a = Inr True"
proof -
  from assms(2) have ds: "distinct (map snd s)"
    and ls: "\<And>v w. (v, w) \<in> set s \<Longrightarrow> length w = var_length v"
    and ns: "\<And>v w n nw. (v, w) \<in> set s \<Longrightarrow> n \<in> set (neighbors cw v) \<Longrightarrow>
               map_of s n = Some nw \<Longrightarrow> overlap_agrees cw v w n nw"
    unfolding consistent_True by blast+
  from ds have "inj_on snd (set s)" by (simp add: distinct_map)
  then have "inj_on snd (set a)" using assms(3) by (rule inj_on_subset)
  moreover from assms(4) have "distinct a" by (simp add: distinct_map)
  ultimately have 1: "distinct (map snd a)" by (simp add: distinct_map)
  have 2: "length w = var_length v" if "(v, w) \<in> set a" for v w
    using that assms(3) ls by blast
  have 3: "overlap_agrees cw v w n nw"
    if "(v, w) \<in> set a \<and> n \<in> set (neighbors cw v) \<and> map_of a n = Some nw" for v w n nw
  proof -
    from that have "(n, nw) \<in> set a" by (auto dest: map_of_SomeD)
    with assms(3) have "(n, nw) \<in> set s" by blast
    with assms(1) have "map_of s n = Some nw" by simp
    moreover from that assms(3) have "(v, w) \<in> set s" by blast
    ultimately show ?thesis using that ns by blast
  qed
  from 1 2 3 show ?thesis unfolding consistent_True by blast
qed

lemma backtrack_complete:
  "distinct (map fst s) \<Longrightarrow> consistent cw s = Inr True \<Longrightarrow>
   set (map fst doms) \<subseteq> set (map fst s) \<Longrightarrow> keeps s doms \<Longrightarrow>
   set a \<subseteq> set s \<Longrightarrow> distinct (map fst a) \<Longrightarrow> backtrack cw doms a \<noteq> Inr None"
proof (induction cw doms a rule: backtrack.induct)
  case (1 cw doms a)
  show ?case
  proof
    assume none: "backtrack cw doms a = Inr None"
    then have ne: "length a \<noteq> length doms"
      by (subst (asm) backtrack.simps) (auto split: if_splits)
    from none ne obtain v where v: "select_unassigned_variable doms a = Inr v"
      by (subst (asm) backtrack.simps) (auto split: sum.splits)
    from none ne v obtain ws where ws: "dict_get doms v = Inr ws"
      by (subst (asm) backtrack.simps) (auto split: sum.splits)
    let ?body = "\<lambda>value. case consistent cw (dict_set a v value) of
                   Inl e \<Rightarrow> Inl e
                 | Inr False \<Rightarrow> Inr None
                 | Inr True \<Rightarrow> backtrack cw doms (dict_set a v value)"
    from none ne v ws have "for_values ?body ws = Inr None"
      by (subst (asm) backtrack.simps) simp
    then have all: "\<forall>w \<in> set ws. ?body w = Inr None" by (rule for_values_None)
    from v have "v \<in> set (unassigned doms a)" by (rule select_unassigned_variable_in)
    then have in_doms: "v \<in> set (map fst doms)" and new: "v \<notin> set (map fst a)"
      by (simp_all add: unassigned_def map_of_None_keys)
    from in_doms "1.prems"(3) have "v \<in> set (map fst s)" by blast
    then obtain w where w: "(v, w) \<in> set s" by force
    with "1.prems"(4) have "w \<in> set (domain_of doms v)" by (simp add: keeps_def)
    with ws have w_in: "w \<in> set ws" by (simp add: domain_of_dict_get)
    have ext: "dict_set a v w = a @ [(v, w)]" using new by (rule dict_set_append)
    have sub: "set (dict_set a v w) \<subseteq> set s" using "1.prems"(5) w by (simp add: ext)
    have dist: "distinct (map fst (dict_set a v w))" using "1.prems"(6) new by (simp add: ext)
    have c: "consistent cw (dict_set a v w) = Inr True"
      using "1.prems"(1,2) sub dist by (rule consistent_mono)
    from all w_in have "?body w = Inr None" by (rule bspec)
    with c have "backtrack cw doms (dict_set a v w) = Inr None" by simp
    moreover have "backtrack cw doms (dict_set a v w) \<noteq> Inr None"
      using ne v ws w_in c refl "1.prems"(1,2,3,4) sub dist by (rule "1.IH")
    ultimately show False by simp
  qed
qed

text \<open>
  Claim C2. When \<open>solve\<close> returns \<open>None\<close>, no complete assignment of vocabulary words to the
  slots passes the consistency check: node consistency and AC-3 never remove the word a
  solution gives a slot, and the search tries every word of the selected slot's domain.
\<close>

theorem solve_none_complete:
  assumes "solve cw = Inr None"
  shows "\<not> (\<exists>s. solution cw s)"
proof
  assume "\<exists>s. solution cw s"
  then obtain s where sol: "solution cw s" ..
  from assms obtain doms' b
    where ac: "ac3 cw (enforce_node_consistency (init_domains cw)) None = Inr (doms', b)"
      and bt: "backtrack cw doms' [] = Inr None"
    by (auto simp: solve_def split: sum.splits)
  have keys0: "set (map fst (enforce_node_consistency (init_domains cw))) \<subseteq> set (variables cw)"
    by (simp add: keys_enforce_node_consistency keys_init_domains)
  have "keeps s (enforce_node_consistency (init_domains cw))"
    using sol keeps_init [OF sol] by (rule keeps_node)
  with sol ac have k: "keeps s doms'" using keys0 by (rule keeps_ac3)
  from sol have d: "distinct (map fst s)" and c: "consistent cw s = Inr True"
    and ks: "set (map fst s) = set (variables cw)"
    by (simp_all add: solution_def)
  have "set (map fst doms') \<subseteq> set (map fst s)"
    using solve_keys [OF ac] ks by simp
  with d c have "backtrack cw doms' [] \<noteq> Inr None"
    using k by (rule backtrack_complete) simp_all
  with bt show False by simp
qed

theorem solve_none_complete_witness:
  "solve (crossing [''SIX'', ''NINE'', ''FIVE'']) = Inr None \<and>
   \<not> solution (crossing [''SIX'', ''NINE'', ''FIVE'']) [(across, ''SIX''), (down, ''NINE'')]"
proof -
  have s: "solve (crossing [''SIX'', ''NINE'', ''FIVE'']) = Inr None"
    by code_simp
  from s solve_none_complete [OF s] show ?thesis by blast
qed

section \<open>Well-formed puzzle descriptions\<close>

lemma wf_entry:
  assumes "wf_crossword cw" and "x \<in> set (variables cw)" and "y \<in> set (variables cw)"
    and "x \<noteq> y"
  shows "case overlaps cw (x, y) of
           None \<Rightarrow> False
         | Some None \<Rightarrow> overlaps cw (y, x) = Some None
         | Some (Some (i, j)) \<Rightarrow> overlaps cw (y, x) = Some (Some (j, i))"
proof -
  let ?C = "\<lambda>x y. case overlaps cw (x, y) of
           None \<Rightarrow> False
         | Some None \<Rightarrow> overlaps cw (y, x) = Some None
         | Some (Some (i, j)) \<Rightarrow> overlaps cw (y, x) = Some (Some (j, i))"
  from assms(1) have "\<forall>x \<in> set (variables cw). \<forall>y \<in> set (variables cw). x \<noteq> y \<longrightarrow> ?C x y"
    unfolding wf_crossword_def by (rule conjunct2)
  then have "\<forall>y \<in> set (variables cw). x \<noteq> y \<longrightarrow> ?C x y" using assms(2) by (rule bspec)
  then have "x \<noteq> y \<longrightarrow> ?C x y" using assms(3) by (rule bspec)
  then show ?thesis using assms(4) by (rule mp)
qed

lemma wf_overlaps_imp:
  assumes "wf_crossword cw" and "x \<in> set (variables cw)" and "y \<in> set (variables cw)"
    and "x \<noteq> y" and "overlaps cw (x, y) = Some (Some (i, j))"
  shows "overlaps cw (y, x) = Some (Some (j, i))"
  using wf_entry [OF assms(1-4)] assms(5) by simp

lemma wf_overlaps:
  assumes "wf_crossword cw" and "x \<in> set (variables cw)" and "y \<in> set (variables cw)"
    and "x \<noteq> y"
  shows "(overlaps cw (x, y) = Some (Some (i, j))) = (overlaps cw (y, x) = Some (Some (j, i)))"
proof
  assume "overlaps cw (x, y) = Some (Some (i, j))"
  with assms show "overlaps cw (y, x) = Some (Some (j, i))" by (rule wf_overlaps_imp)
next
  assume "overlaps cw (y, x) = Some (Some (j, i))"
  with assms(1,3,2) assms(4) [symmetric] show "overlaps cw (x, y) = Some (Some (i, j))"
    by (rule wf_overlaps_imp)
qed

lemma wf_neighbor_overlap:
  assumes "wf_crossword cw" and "x \<in> set (variables cw)" and "y \<in> set (neighbors cw x)"
  shows "\<exists>i j. overlaps cw (x, y) = Some (Some (i, j))"
proof -
  from assms(3) have y: "y \<in> set (variables cw)" "y \<noteq> x" and h: "has_overlap cw y x"
    by (simp_all add: neighbors_def)
  from h obtain j i where "overlaps cw (y, x) = Some (Some (j, i))"
    by (auto simp: has_overlap_def split: option.splits)
  with wf_overlaps [OF assms(1) assms(2) y(1), of i j] y(2)
  have "overlaps cw (x, y) = Some (Some (i, j))" by simp
  then show ?thesis by blast
qed

lemma wf_neighbors_sym:
  assumes "wf_crossword cw" and "x \<in> set (variables cw)" and "y \<in> set (neighbors cw x)"
  shows "x \<in> set (neighbors cw y)"
proof -
  from wf_neighbor_overlap [OF assms] have "has_overlap cw x y"
    by (auto simp: has_overlap_def)
  moreover from assms(3) have "y \<noteq> x" by (simp add: neighbors_def)
  ultimately show ?thesis using assms(2) by (simp add: neighbors_def)
qed

lemma wf_agrees_sym:
  assumes "wf_crossword cw" and "x \<in> set (variables cw)" and "y \<in> set (variables cw)"
    and "x \<noteq> y" and "overlap_agrees cw x w y w2"
  shows "overlap_agrees cw y w2 x w"
proof -
  from assms(5) obtain i j where o: "overlaps cw (x, y) = Some (Some (i, j))"
    and r: "i < length w" "j < length w2" "w ! i = w2 ! j"
    by (auto simp: overlap_agrees_def split: option.splits)
  from o wf_overlaps [OF assms(1-4), of i j] have "overlaps cw (y, x) = Some (Some (j, i))"
    by simp
  with r show ?thesis by (simp add: overlap_agrees_def)
qed

lemma arc_ok_flip:
  assumes "wf_crossword cw" and "arc_ok cw (x, y)"
  shows "arc_ok cw (y, x)"
proof -
  from assms(2) have x: "x \<in> set (variables cw)" and y: "y \<in> set (neighbors cw x)"
    by (simp_all add: arc_ok_def)
  from y have "y \<in> set (variables cw)" by (simp add: neighbors_def)
  with wf_neighbors_sym [OF assms(1) x y] show ?thesis by (simp add: arc_ok_def)
qed

lemma initial_arcs_of_all:
  assumes "wf_crossword cw" and "v \<in> set (variables cw)" and "set ns \<subseteq> set (neighbors cw v)"
  shows "\<exists>q'. initial_arcs_of cw v ns q = Inr q' \<and> set q' = set q \<union> (\<lambda>n. (v, n)) ` set ns"
  using assms(3)
proof (induction ns arbitrary: q)
  case Nil
  show ?case by simp
next
  case (Cons n ns)
  from Cons.prems have n: "n \<in> set (neighbors cw v)" and ns: "set ns \<subseteq> set (neighbors cw v)"
    by simp_all
  from wf_neighbor_overlap [OF assms(1,2) n] obtain i j
    where o: "overlaps cw (v, n) = Some (Some (i, j))" by blast
  from Cons.IH [OF ns, of "q @ [(v, n)]"] obtain q'
    where "initial_arcs_of cw v ns (q @ [(v, n)]) = Inr q'"
      and "set q' = set (q @ [(v, n)]) \<union> (\<lambda>n. (v, n)) ` set ns" by blast
  with o show ?case by auto
qed

lemma initial_arcs_all:
  assumes "wf_crossword cw" and "set vs \<subseteq> set (variables cw)"
  shows "\<exists>q'. initial_arcs cw vs q = Inr q' \<and>
              set q' = set q \<union> {(v, n). v \<in> set vs \<and> n \<in> set (neighbors cw v)}"
  using assms(2)
proof (induction vs arbitrary: q)
  case Nil
  show ?case by simp
next
  case (Cons v vs)
  from Cons.prems have v: "v \<in> set (variables cw)" and vs: "set vs \<subseteq> set (variables cw)"
    by simp_all
  from initial_arcs_of_all [OF assms(1) v subset_refl, of q] obtain q1
    where q1: "initial_arcs_of cw v (neighbors cw v) q = Inr q1"
      and s1: "set q1 = set q \<union> (\<lambda>n. (v, n)) ` set (neighbors cw v)" by blast
  from Cons.IH [OF vs, of q1] obtain q'
    where q': "initial_arcs cw vs q1 = Inr q'"
      and s': "set q' = set q1 \<union> {(v, n). v \<in> set vs \<and> n \<in> set (neighbors cw v)}" by blast
  from q1 q' have "initial_arcs cw (v # vs) q = Inr q'" by simp
  moreover from s1 s'
  have "set q' = set q \<union> {(u, n). u \<in> set (v # vs) \<and> n \<in> set (neighbors cw u)}"
    by auto
  ultimately show ?case by blast
qed

lemma initial_arcs_wf:
  assumes "wf_crossword cw" and "set (map fst doms) = set (variables cw)"
  shows "\<exists>q. initial_arcs cw (map fst doms) [] = Inr q \<and> (\<forall>arc. arc \<in> set q \<longleftrightarrow> arc_ok cw arc)"
proof -
  from assms(2) have "set (map fst doms) \<subseteq> set (variables cw)" by simp
  from initial_arcs_all [OF assms(1) this, of "[]"] obtain q
    where q: "initial_arcs cw (map fst doms) [] = Inr q"
      and s: "set q = set [] \<union> {(v, n). v \<in> set (map fst doms) \<and> n \<in> set (neighbors cw v)}"
    by blast
  have "arc \<in> set q \<longleftrightarrow> arc_ok cw arc" for arc
    using s assms(2) by (cases arc) (simp add: arc_ok_def)
  with q show ?thesis by blast
qed

section \<open>AC-3 on arc-consistent domains\<close>

lemma words_match_True:
  assumes "xo < length xw" and "\<forall>yw \<in> set ys. yo < length yw"
    and "\<exists>yw \<in> set ys. xw ! xo = yw ! yo"
  shows "words_match xw xo yo ys = Inr True"
  using assms(2,3)
proof (induction ys)
  case Nil
  then show ?case by simp
next
  case (Cons yw ys)
  show ?case
  proof (cases "xw ! xo = yw ! yo")
    case True
    with assms(1) Cons.prems(1) show ?thesis by simp
  next
    case False
    with Cons.prems have "\<forall>yw \<in> set ys. yo < length yw" and "\<exists>yw \<in> set ys. xw ! xo = yw ! yo"
      by simp_all
    then have "words_match xw xo yo ys = Inr True" by (rule Cons.IH)
    with False assms(1) Cons.prems(1) show ?thesis by simp
  qed
qed

lemma revise_loop_noop:
  assumes "dict_get snap y = Inr ys" and "\<forall>xw \<in> set xs. words_match xw xo yo ys = Inr True"
  shows "revise_loop snap x y xo yo xs (doms, r) = Inr (doms, r)"
  using assms(2)
proof (induction xs)
  case Nil
  show ?case by simp
next
  case (Cons xw xs)
  then show ?case using assms(1) by simp
qed

lemma dict_get_key:
  assumes "k \<in> set (map fst doms)"
  shows "dict_get doms k = Inr (domain_of doms k)"
proof -
  from assms have "map_of doms k \<noteq> None" by (simp only: map_of_None_keys not_not)
  then obtain ws where "map_of doms k = Some ws" by auto
  then show ?thesis by (simp add: dict_get_def domain_of_def)
qed

lemma arc_consistent_arc:
  assumes "arc_consistent cw doms" and "arc_ok cw (x, y)" and "w \<in> set (domain_of doms x)"
  shows "\<exists>w2 \<in> set (domain_of doms y). overlap_agrees cw x w y w2"
proof -
  from assms(2) have x: "x \<in> set (variables cw)" and y: "y \<in> set (neighbors cw x)"
    by (simp_all add: arc_ok_def)
  from assms(1) have "\<forall>x \<in> set (variables cw). \<forall>y \<in> set (neighbors cw x).
        \<forall>w \<in> set (domain_of doms x). \<exists>w2 \<in> set (domain_of doms y). overlap_agrees cw x w y w2"
    by (simp only: arc_consistent_def)
  then have "\<forall>y \<in> set (neighbors cw x).
        \<forall>w \<in> set (domain_of doms x). \<exists>w2 \<in> set (domain_of doms y). overlap_agrees cw x w y w2"
    using x by (rule bspec)
  then have "\<forall>w \<in> set (domain_of doms x). \<exists>w2 \<in> set (domain_of doms y). overlap_agrees cw x w y w2"
    using y by (rule bspec)
  then show ?thesis using assms(3) by (rule bspec)
qed

lemma revise_noop:
  assumes "wf_crossword cw" and "set (map fst doms) = set (variables cw)"
    and "arc_consistent cw doms" and "arc_ok cw (x, y)"
  shows "revise cw doms x y = Inr (doms, False)"
proof -
  from assms(4) have x: "x \<in> set (variables cw)" and y: "y \<in> set (neighbors cw x)"
    by (simp_all add: arc_ok_def)
  from y have yv: "y \<in> set (variables cw)" and ne: "x \<noteq> y" by (auto simp: neighbors_def)
  from wf_neighbor_overlap [OF assms(1) x y] obtain i j
    where o: "overlaps cw (x, y) = Some (Some (i, j))" by blast
  from wf_overlaps_imp [OF assms(1) x yv ne o]
  have o': "overlaps cw (y, x) = Some (Some (j, i))" .
  have flip: "arc_ok cw (y, x)" using assms(1,4) by (rule arc_ok_flip)
  from x assms(2) have gx: "dict_get doms x = Inr (domain_of doms x)"
    by (intro dict_get_key) simp
  from yv assms(2) have gy: "dict_get doms y = Inr (domain_of doms y)"
    by (intro dict_get_key) simp
  have ys: "\<forall>yw \<in> set (domain_of doms y). j < length yw"
  proof
    fix yw assume "yw \<in> set (domain_of doms y)"
    from arc_consistent_arc [OF assms(3) flip this]
    show "j < length yw" by (auto simp: overlap_agrees_def o')
  qed
  have "\<forall>xw \<in> set (domain_of doms x). words_match xw i j (domain_of doms y) = Inr True"
  proof
    fix xw assume "xw \<in> set (domain_of doms x)"
    from arc_consistent_arc [OF assms(3,4) this]
    have "i < length xw" and "\<exists>yw \<in> set (domain_of doms y). xw ! i = yw ! j"
      by (auto simp: overlap_agrees_def o)
    with ys show "words_match xw i j (domain_of doms y) = Inr True"
      by (intro words_match_True)
  qed
  with gy have "revise_loop doms x y i j (domain_of doms x) (doms, False) = Inr (doms, False)"
    by (rule revise_loop_noop)
  with o gx show ?thesis by (simp add: revise_def)
qed

lemma ac3_loop_noop:
  assumes "\<forall>arc \<in> set q. revise cw doms (fst arc) (snd arc) = Inr (doms, False)"
  shows "ac3_loop cw doms q = Inr (doms, True)"
  using assms
proof (induction q)
  case Nil
  show ?case by simp
next
  case (Cons arc q)
  obtain x y where arc: "arc = (x, y)" by (cases arc)
  from Cons.prems arc have "revise cw doms x y = Inr (doms, False)" by simp
  moreover from Cons have "ac3_loop cw doms q = Inr (doms, True)" by simp
  ultimately show ?case by (simp add: arc)
qed

text \<open>
  Claim C9. On a well-formed puzzle, when the domain store (keyed by the puzzle's slots) is
  already arc-consistent, \<open>ac3\<close> without an arc list returns \<open>True\<close> and leaves every domain
  as it was.
\<close>

theorem ac3_idempotent:
  assumes "wf_crossword cw" and "set (map fst doms) = set (variables cw)"
    and "arc_consistent cw doms"
  shows "ac3 cw doms None = Inr (doms, True)"
proof -
  from initial_arcs_wf [OF assms(1,2)] obtain q
    where q: "initial_arcs cw (map fst doms) [] = Inr q"
      and ok: "\<forall>arc. arc \<in> set q \<longleftrightarrow> arc_ok cw arc" by blast
  have "\<forall>arc \<in> set q. revise cw doms (fst arc) (snd arc) = Inr (doms, False)"
  proof
    fix arc assume "arc \<in> set q"
    with ok have "arc_ok cw arc" by (simp only:)
    then have "arc_ok cw (fst arc, snd arc)" by (simp only: prod.collapse)
    with assms show "revise cw doms (fst arc) (snd arc) = Inr (doms, False)"
      by (rule revise_noop)
  qed
  then have "ac3_loop cw doms q = Inr (doms, True)" by (rule ac3_loop_noop)
  with q show ?thesis by (simp add: ac3_def)
qed

theorem ac3_idempotent_witness:
  "wf_crossword (crossing [''SIX'', ''USED'', ''NINE'']) \<and>
   arc_consistent (crossing [''SIX'', ''USED'', ''NINE''])
     [(across, [''SIX'']), (down, [''USED''])] \<and>
   ac3 (crossing [''SIX'', ''USED'', ''NINE'']) [(across, [''SIX'']), (down, [''USED''])] None
     = Inr ([(across, [''SIX'']), (down, [''USED''])], True)"
proof -
  let ?cw = "crossing [''SIX'', ''USED'', ''NINE'']"
  let ?doms = "[(across, [''SIX'']), (down, [''USED''])]"
  have w: "wf_crossword ?cw" by code_simp
  have k: "set (map fst ?doms) = set (variables ?cw)" by (simp add: crossing_def)
  have a: "arc_consistent ?cw ?doms" by code_simp
  from w a ac3_idempotent [OF w k a] show ?thesis by simp
qed

end
